theory Spec2Isabelle
  imports Complex_Main "HOL-Library.Multiset"
begin

section \<open>Pattern model (src/types/midi.ts, src/engine/pattern.ts)\<close>

text \<open>
  Times are \<open>Fraction\<close> values of fraction.js, exact rationals: \<^typ>\<open>rat\<close>. Pitch and
  velocity are JavaScript numbers holding integers: \<^typ>\<open>int\<close>. The field \<open>note\<close> of a
  \<open>Note\<close> is called \<open>noteNumber\<close> here and \<open>duration\<close> of a \<open>Note\<close> is
  \<open>noteDuration\<close>; the \<open>notes\<close> and \<open>id\<close> of a \<open>Pattern\<close> are \<open>pnotes\<close> and
  \<open>patternId\<close> (\<open>note\<close>, \<open>notes\<close> and \<open>id\<close> are taken in Isabelle). The bounds cache holds
  JavaScript numbers obtained with \<open>valueOf()\<close>; they are kept here as the exact rationals.
\<close>

record Note =
  noteDuration :: rat
  noteNumber :: int
  velocity :: int

record PatternBounds =
  minPitch :: int
  maxPitch :: int
  minTime :: rat
  maxTime :: rat

record Pattern =
  pnotes :: "(rat \<times> Note) list"
  duration :: "rat option"
  patternId :: "string option"
  name :: "string option"
  bounds :: "PatternBounds option"

definition boundsStep :: "rat \<times> Note \<Rightarrow> PatternBounds \<Rightarrow> PatternBounds" where
  "boundsStep sn b =
     (let pitch = noteNumber (snd sn); time = fst sn; endTime = time + noteDuration (snd sn)
      in \<lparr>minPitch = min (minPitch b) pitch, maxPitch = max (maxPitch b) pitch,
          minTime = min (minTime b) time, maxTime = max (maxTime b) endTime\<rparr>)"

text \<open>
  \<open>calculatePatternBounds\<close>: undefined for no notes; otherwise the loop starts from
  \<open>minPitch = 127\<close>, \<open>maxPitch = 0\<close>, \<open>minTime = Infinity\<close>, \<open>maxTime = -Infinity\<close>,
  so after the first note the two times are that note's start and end.
\<close>

definition calculatePatternBounds :: "(rat \<times> Note) list \<Rightarrow> PatternBounds option" where
  "calculatePatternBounds ns =
     (case ns of
        [] \<Rightarrow> None
      | sn # rest \<Rightarrow>
          Some (fold boundsStep rest
            \<lparr>minPitch = min 127 (noteNumber (snd sn)), maxPitch = max 0 (noteNumber (snd sn)),
             minTime = fst sn, maxTime = fst sn + noteDuration (snd sn)\<rparr>))"

definition createPatternWithBounds :: "(rat \<times> Note) list \<Rightarrow> rat option \<Rightarrow> Pattern" where
  "createPatternWithBounds ns d =
     \<lparr>pnotes = ns, duration = d, patternId = None, name = None,
      bounds = calculatePatternBounds ns\<rparr>"

definition createPattern :: "rat option \<Rightarrow> string option \<Rightarrow> Pattern" where
  "createPattern d nm =
     \<lparr>pnotes = [], duration = d, patternId = None, name = nm,
      bounds = calculatePatternBounds []\<rparr>"

definition calculateDuration :: "(rat \<times> Note) list \<Rightarrow> rat" where
  "calculateDuration ns =
     (if ns = [] then 0
      else fold (\<lambda>sn maxEndTime.
                   let endTime = fst sn + noteDuration (snd sn)
                   in if endTime > maxEndTime then endTime else maxEndTime) ns 0)"

text \<open>
  The expression \<open>pattern.duration ?? calculateDuration(pattern.notes)\<close>, which the
  modifiers write inline: the effective duration of a pattern.
\<close>

definition effectiveDuration :: "Pattern \<Rightarrow> rat" where
  "effectiveDuration p =
     (case duration p of Some d \<Rightarrow> d | None \<Rightarrow> calculateDuration (pnotes p))"

text \<open>
  \<open>notes.sort((a, b) => a[0].compare(b[0]))\<close>: \<open>Array.prototype.sort\<close> is stable and
  \<open>compare\<close> is the order of the rationals, so the result is the stable sort by start time.
\<close>

definition sortByStart :: "(rat \<times> Note) list \<Rightarrow> (rat \<times> Note) list" where
  "sortByStart ns = sort_key fst ns"

definition sortedByStart :: "(rat \<times> Note) list \<Rightarrow> bool" where
  "sortedByStart ns = sorted (map fst ns)"

definition clampMidi :: "int \<Rightarrow> int" where
  "clampMidi x = max 0 (min 127 x)"

section \<open>Modifiers (src/engine/modifiers/*.ts)\<close>

text \<open>
  Each modifier returns a new pattern made by \<open>createPatternWithBounds\<close>. A parameter
  declared \<open>Fraction | number\<close> is the rational it denotes. The exceptions that the
  modelled code can raise: the division by zero of fraction.js and the \<open>TypeError\<close> of
  reading from \<open>undefined\<close>.
\<close>

datatype error = DivisionByZero | TypeError

subsection \<open>concat and union\<close>

fun concatLoop ::
  "Pattern list \<Rightarrow> (rat \<times> Note) list \<Rightarrow> rat \<Rightarrow> (rat \<times> Note) list \<times> rat" where
  "concatLoop [] allNotes currentTime = (allNotes, currentTime)"
| "concatLoop (p # ps) allNotes currentTime =
     concatLoop ps
       (allNotes @ map (\<lambda>sn. (currentTime + fst sn, snd sn)) (pnotes p))
       (currentTime + effectiveDuration p)"

definition concat_patterns :: "Pattern list \<Rightarrow> Pattern" where
  "concat_patterns ps =
     (if ps = [] then createPattern None None
      else createPatternWithBounds (fst (concatLoop ps [] 0)) (Some (snd (concatLoop ps [] 0))))"

fun unionLoop ::
  "Pattern list \<Rightarrow> (rat \<times> Note) list \<Rightarrow> rat \<Rightarrow> (rat \<times> Note) list \<times> rat" where
  "unionLoop [] allNotes maxDuration = (allNotes, maxDuration)"
| "unionLoop (p # ps) allNotes maxDuration =
     unionLoop ps (allNotes @ pnotes p)
       (if effectiveDuration p > maxDuration then effectiveDuration p else maxDuration)"

definition union_patterns :: "Pattern list \<Rightarrow> Pattern" where
  "union_patterns ps =
     (if ps = [] then createPattern None None
      else createPatternWithBounds (sortByStart (fst (unionLoop ps [] 0)))
             (Some (snd (unionLoop ps [] 0))))"

subsection \<open>The unary modifiers\<close>

definition reverse :: "Pattern \<Rightarrow> Pattern" where
  "reverse p =
     (let d = effectiveDuration p;
          newNotes = map (\<lambda>sn. (d - fst sn - noteDuration (snd sn), snd sn)) (pnotes p)
      in createPatternWithBounds (sortByStart newNotes) (Some d))"

definition invert :: "Pattern \<Rightarrow> int \<Rightarrow> Pattern" where
  "invert p pivot =
     (let newNotes = map (\<lambda>sn. (fst sn,
                           (snd sn)\<lparr>noteNumber := clampMidi (2 * pivot - noteNumber (snd sn))\<rparr>))
                         (pnotes p)
      in createPatternWithBounds newNotes
           (case duration p of Some d \<Rightarrow> Some d | None \<Rightarrow> Some (calculateDuration newNotes)))"

definition transpose_pattern :: "Pattern \<Rightarrow> int \<Rightarrow> Pattern" where
  "transpose_pattern p semitones =
     (let newNotes = map (\<lambda>sn. (fst sn,
                           (snd sn)\<lparr>noteNumber := clampMidi (noteNumber (snd sn) + semitones)\<rparr>))
                         (pnotes p)
      in createPatternWithBounds newNotes
           (case duration p of Some d \<Rightarrow> Some d | None \<Rightarrow> Some (calculateDuration newNotes)))"

definition stretch :: "Pattern \<Rightarrow> rat \<Rightarrow> Pattern" where
  "stretch p f =
     (let newNotes = map (\<lambda>sn. (fst sn * f,
                           (snd sn)\<lparr>noteDuration := noteDuration (snd sn) * f\<rparr>)) (pnotes p);
          patternDuration = effectiveDuration p
      in createPatternWithBounds newNotes (Some (patternDuration * f)))"

definition scaleDuration :: "Pattern \<Rightarrow> rat \<Rightarrow> Pattern" where
  "scaleDuration p f =
     (let newNotes = map (\<lambda>sn. (fst sn,
                           (snd sn)\<lparr>noteDuration := noteDuration (snd sn) * f\<rparr>)) (pnotes p)
      in createPatternWithBounds newNotes
           (case duration p of Some d \<Rightarrow> Some d | None \<Rightarrow> Some (calculateDuration newNotes)))"

definition setDuration :: "Pattern \<Rightarrow> rat \<Rightarrow> Pattern" where
  "setDuration p dur =
     (let newNotes = map (\<lambda>sn. (fst sn, (snd sn)\<lparr>noteDuration := dur\<rparr>)) (pnotes p)
      in createPatternWithBounds newNotes
           (case duration p of Some d \<Rightarrow> Some d | None \<Rightarrow> Some (calculateDuration newNotes)))"

text \<open>
  \<open>scaleVelocity\<close> multiplies by a JavaScript number and applies \<open>Math.round\<close> (to the
  nearest integer, ties upwards); the product is taken exactly here.
\<close>

definition mathRound :: "rat \<Rightarrow> int" where
  "mathRound x = \<lfloor>x + 1 / 2\<rfloor>"

definition scaleVelocity :: "Pattern \<Rightarrow> rat \<Rightarrow> Pattern" where
  "scaleVelocity p factor =
     (let newNotes = map (\<lambda>sn. (fst sn,
                           (snd sn)\<lparr>velocity :=
                              clampMidi (mathRound (of_int (velocity (snd sn)) * factor))\<rparr>))
                         (pnotes p)
      in createPatternWithBounds newNotes
           (case duration p of Some d \<Rightarrow> Some d | None \<Rightarrow> Some (calculateDuration newNotes)))"

definition setVelocity :: "Pattern \<Rightarrow> int \<Rightarrow> Pattern" where
  "setVelocity p v =
     (let vel = clampMidi v;
          newNotes = map (\<lambda>sn. (fst sn, (snd sn)\<lparr>velocity := vel\<rparr>)) (pnotes p)
      in createPatternWithBounds newNotes
           (case duration p of Some d \<Rightarrow> Some d | None \<Rightarrow> Some (calculateDuration newNotes)))"

text \<open>
  \<open>quantize\<close>: \<open>startTime.div(grid)\<close> throws for a zero grid. The rounding of
  \<open>Fraction.round()\<close> belongs to fraction.js, which is not part of the repository; it is
  the parameter \<open>rnd\<close>.
\<close>

definition quantize :: "(rat \<Rightarrow> int) \<Rightarrow> Pattern \<Rightarrow> rat \<Rightarrow> error + Pattern" where
  "quantize rnd p grid =
     (if grid = 0 \<and> pnotes p \<noteq> [] then Inl DivisionByZero
      else
        let newNotes = sortByStart
               (map (\<lambda>sn. (grid * of_int (rnd (fst sn / grid)), snd sn)) (pnotes p))
        in Inr (createPatternWithBounds newNotes
                 (case duration p of Some d \<Rightarrow> Some d
                  | None \<Rightarrow> Some (calculateDuration newNotes))))"

fun trimLoop ::
  "bool \<Rightarrow> rat \<Rightarrow> (rat \<times> Note) list \<Rightarrow> (rat \<times> Note) list \<Rightarrow> (rat \<times> Note) list" where
  "trimLoop trimEnd d [] newNotes = newNotes"
| "trimLoop trimEnd d ((startTime, n) # rest) newNotes =
     (if startTime < 0 \<or> startTime \<ge> d then trimLoop trimEnd d rest newNotes
      else if trimEnd then
        (let endTime = startTime + noteDuration n
         in if endTime > d then
              (let newDuration = d - startTime
               in if newDuration > 0
                  then trimLoop trimEnd d rest
                         (newNotes @ [(startTime, n\<lparr>noteDuration := newDuration\<rparr>)])
                  else trimLoop trimEnd d rest newNotes)
            else trimLoop trimEnd d rest (newNotes @ [(startTime, n)]))
      else trimLoop trimEnd d rest (newNotes @ [(startTime, n)]))"

definition trim :: "Pattern \<Rightarrow> bool \<Rightarrow> Pattern" where
  "trim p trimEnd =
     (let d = effectiveDuration p
      in createPatternWithBounds (trimLoop trimEnd d (pnotes p) []) (Some d))"

text \<open>
  \<open>view\<close>: the parameter \<open>endTime\<close> is a \<open>Fraction\<close> or \<open>null\<close> (a \<open>Fraction\<close> object is
  always truthy, so only \<open>null\<close> selects the pattern's own duration).
\<close>

definition view :: "Pattern \<Rightarrow> rat \<Rightarrow> rat option \<Rightarrow> Pattern" where
  "view p start endTime =
     (let patternDuration = effectiveDuration p;
          end' = (case endTime of Some e \<Rightarrow> e | None \<Rightarrow> patternDuration);
          newNotes = map (\<lambda>sn. (fst sn - start, snd sn)) (pnotes p)
      in createPatternWithBounds newNotes (Some (end' - start)))"


section \<open>Graph, registry and evaluator (src/types/patternflow.ts, src/engine/graphEvaluator.ts)\<close>

text \<open>
  Of a React Flow edge and node only the fields the evaluator reads are kept; \<open>id\<close> is
  \<open>edgeId\<close> and \<open>nodeId\<close>. The parameter object of a modifier node (\<open>ModifierParams\<close>,
  an open record of any values) is the type variable \<open>'p\<close>.
\<close>

record Edge =
  edgeId :: string
  source :: string
  target :: string
  targetHandle :: "string option"

datatype 'p NodeData =
    PatternSource Pattern string
  | Modifier string 'p "nat option" string

record 'p Node =
  nodeId :: string
  nodeData :: "'p NodeData"

record 'p Graph =
  nodes :: "'p Node list"
  edges :: "Edge list"

datatype InputDefinition =
    Keyword string string bool
  | Positional int "string option"

record ModifierInputs =
  keyword :: "(string \<rightharpoonup> Pattern) option"
  positional :: "Pattern list option"

text \<open>
  A \<open>ModifierDefinition\<close>: \<open>execute\<close> may throw (\<open>Inl\<close>), return \<open>null\<close> or return a
  pattern. The \<open>parameters\<close> table describes the form shown to the user and is not read by
  the evaluator.
\<close>

record 'p ModifierDefinition =
  modifierName :: string
  displayName :: string
  inputs :: "InputDefinition list"
  execute :: "ModifierInputs \<Rightarrow> 'p \<Rightarrow> error + Pattern option"

type_synonym 'p registry = "string \<rightharpoonup> 'p ModifierDefinition"

definition registerModifier :: "'p ModifierDefinition \<Rightarrow> 'p registry \<Rightarrow> 'p registry" where
  "registerModifier def reg = reg(modifierName def \<mapsto> def)"

definition getModifier :: "'p registry \<Rightarrow> string \<Rightarrow> 'p ModifierDefinition option" where
  "getModifier reg nm = reg nm"

text \<open>The evaluator's cache, \<open>Map<string, Pattern | null>\<close>.\<close>

type_synonym cache = "string \<rightharpoonup> Pattern option"

subsection \<open>Positional handles\<close>

definition startsWith :: "string \<Rightarrow> string \<Rightarrow> bool" where
  "startsWith s pre = (take (length pre) s = pre)"

fun splitOn :: "char \<Rightarrow> string \<Rightarrow> string list" where
  "splitOn sep [] = [[]]"
| "splitOn sep (c # cs) =
     (if c = sep then [] # splitOn sep cs
      else (case splitOn sep cs of [] \<Rightarrow> [[c]] | w # ws \<Rightarrow> (c # w) # ws))"

definition isPositionalEdge :: "Edge \<Rightarrow> bool" where
  "isPositionalEdge e = (case targetHandle e of None \<Rightarrow> False | Some h \<Rightarrow> startsWith h ''pos-'')"

text \<open>
  \<open>parseInt(e.targetHandle!.split('-')[1])\<close>. \<open>parseInt\<close> is the host's; it is the
  parameter \<open>parseInt\<close>, with \<open>None\<close> for \<open>NaN\<close>.
\<close>

definition positionalIndex :: "(string \<Rightarrow> int option) \<Rightarrow> Edge \<Rightarrow> int option" where
  "positionalIndex parseInt e =
     (case targetHandle e of
        None \<Rightarrow> None
      | Some h \<Rightarrow> (case splitOn (CHR ''-'') h of _ # w # _ \<Rightarrow> parseInt w | _ \<Rightarrow> None))"

text \<open>The comparator \<open>(a, b) => aIdx - bIdx\<close>; a \<open>NaN\<close> result counts as \<open>0\<close> in a sort.\<close>

definition compareEdges :: "(string \<Rightarrow> int option) \<Rightarrow> Edge \<Rightarrow> Edge \<Rightarrow> int" where
  "compareEdges parseInt a b =
     (case (positionalIndex parseInt a, positionalIndex parseInt b) of
        (Some aIdx, Some bIdx) \<Rightarrow> aIdx - bIdx
      | _ \<Rightarrow> 0)"

text \<open>
  \<open>Array.prototype.sort\<close> with a comparator: stable, ascending. It is the stable insertion
  sort here, which is what every stable sort computes when the comparator is consistent
  (all indices are numbers).
\<close>

fun insertWith :: "('a \<Rightarrow> 'a \<Rightarrow> int) \<Rightarrow> 'a \<Rightarrow> 'a list \<Rightarrow> 'a list" where
  "insertWith cmp x [] = [x]"
| "insertWith cmp x (y # ys) = (if cmp x y \<le> 0 then x # y # ys else y # insertWith cmp x ys)"

definition sortWith :: "('a \<Rightarrow> 'a \<Rightarrow> int) \<Rightarrow> 'a list \<Rightarrow> 'a list" where
  "sortWith cmp xs = foldr (insertWith cmp) xs []"

text \<open>
  A decimal reading of a handle index, for running the evaluator on examples: the digits
  at the front of the string, \<open>NaN\<close> when there is none.
\<close>

definition isDigit :: "char \<Rightarrow> bool" where
  "isDigit c = (48 \<le> (of_char c :: nat) \<and> (of_char c :: nat) \<le> 57)"

fun digitsValue :: "string \<Rightarrow> nat \<Rightarrow> nat" where
  "digitsValue [] acc = acc"
| "digitsValue (c # cs) acc =
     (if isDigit c then digitsValue cs (10 * acc + (of_char c - 48)) else acc)"

definition parseIntDecimal :: "string \<Rightarrow> int option" where
  "parseIntDecimal s =
     (case s of [] \<Rightarrow> None
      | c # cs \<Rightarrow> if isDigit c then Some (int (digitsValue s 0)) else None)"

subsection \<open>evaluate\<close>

text \<open>
  \<open>evaluate\<close>, \<open>evaluateNode\<close>, \<open>evaluateModifier\<close> and \<open>getModifierInputs\<close> call each
  other; the recursion ends only if the graph lets it. The first argument of \<open>evaluate\<close>
  is the depth of calls that the call stack still allows; the result \<open>None\<close> is the
  \<open>RangeError\<close> of an exhausted stack, which nothing in the evaluator catches. The other
  three functions take the recursive call as their argument \<open>ev\<close>. Every function takes
  the cache and returns it with its result.
\<close>

type_synonym evaluator = "string \<Rightarrow> cache \<Rightarrow> (Pattern option \<times> cache) option"

text \<open>\<open>positionalEdges.map(e => this.evaluate(graph, e.source))\<close>\<close>

fun evaluateSources :: "evaluator \<Rightarrow> Edge list \<Rightarrow> cache \<Rightarrow> (Pattern option list \<times> cache) option" where
  "evaluateSources ev [] c = Some ([], c)"
| "evaluateSources ev (e # es) c =
     (case ev (source e) c of
        None \<Rightarrow> None
      | Some (p, c') \<Rightarrow>
          (case evaluateSources ev es c' of
             None \<Rightarrow> None
           | Some (ps, c'') \<Rightarrow> Some (p # ps, c'')))"

fun getModifierInputsLoop ::
  "evaluator \<Rightarrow> (string \<Rightarrow> int option) \<Rightarrow> Edge list \<Rightarrow> InputDefinition list \<Rightarrow>
   ModifierInputs \<Rightarrow> cache \<Rightarrow> (ModifierInputs \<times> cache) option" where
  "getModifierInputsLoop ev parseInt incomingEdges [] result c = Some (result, c)"
| "getModifierInputsLoop ev parseInt incomingEdges (Keyword key lbl req # defs) result c =
     (case find (\<lambda>e. targetHandle e = Some key) incomingEdges of
        None \<Rightarrow> getModifierInputsLoop ev parseInt incomingEdges defs result c
      | Some edge \<Rightarrow>
          (case ev (source edge) c of
             None \<Rightarrow> None
           | Some (None, c') \<Rightarrow> getModifierInputsLoop ev parseInt incomingEdges defs result c'
           | Some (Some pat, c') \<Rightarrow>
               getModifierInputsLoop ev parseInt incomingEdges defs
                 (result\<lparr>keyword :=
                    Some ((case keyword result of None \<Rightarrow> Map.empty | Some m \<Rightarrow> m)(key \<mapsto> pat))\<rparr>)
                 c'))"
| "getModifierInputsLoop ev parseInt incomingEdges (Positional minCount lbl # defs) result c =
     (let positionalEdges =
            sortWith (compareEdges parseInt) (filter isPositionalEdge incomingEdges)
      in case evaluateSources ev positionalEdges c of
           None \<Rightarrow> None
         | Some (ps, c') \<Rightarrow>
             getModifierInputsLoop ev parseInt incomingEdges defs
               (result\<lparr>positional := Some (List.map_filter (\<lambda>p. p) ps)\<rparr>) c')"

definition getModifierInputs ::
  "evaluator \<Rightarrow> (string \<Rightarrow> int option) \<Rightarrow> 'p Graph \<Rightarrow> 'p Node \<Rightarrow> InputDefinition list \<Rightarrow>
   cache \<Rightarrow> (ModifierInputs \<times> cache) option" where
  "getModifierInputs ev parseInt graph node inputDefs c =
     (let incomingEdges = filter (\<lambda>e. target e = nodeId node) (edges graph)
      in getModifierInputsLoop ev parseInt incomingEdges inputDefs
           \<lparr>keyword = None, positional = None\<rparr> c)"

text \<open>The validation loop of \<open>evaluateModifier\<close>: \<open>False\<close> where the source returns \<open>null\<close>.\<close>

fun inputsValid :: "InputDefinition list \<Rightarrow> ModifierInputs \<Rightarrow> bool" where
  "inputsValid [] ins = True"
| "inputsValid (Keyword key lbl req # defs) ins =
     (if req then
        (if (case keyword ins of None \<Rightarrow> True | Some m \<Rightarrow> m key = None) then False
         else inputsValid defs ins)
      else inputsValid defs ins)"
| "inputsValid (Positional minCount lbl # defs) ins =
     (let count = (case positional ins of None \<Rightarrow> 0 | Some ps \<Rightarrow> int (length ps))
      in if count < minCount then False else inputsValid defs ins)"

definition applyModifier :: "'p registry \<Rightarrow> string \<Rightarrow> 'p \<Rightarrow> ModifierInputs \<Rightarrow> Pattern option" where
  "applyModifier reg modifierName' params ins =
     (case getModifier reg modifierName' of
        None \<Rightarrow> None
      | Some modifier \<Rightarrow>
          (case execute modifier ins params of Inl err \<Rightarrow> None | Inr r \<Rightarrow> r))"

definition evaluateModifier ::
  "evaluator \<Rightarrow> (string \<Rightarrow> int option) \<Rightarrow> 'p registry \<Rightarrow> 'p Graph \<Rightarrow> 'p Node \<Rightarrow>
   cache \<Rightarrow> (Pattern option \<times> cache) option" where
  "evaluateModifier ev parseInt reg graph node c =
     (case nodeData node of
        PatternSource pat nm \<Rightarrow> Some (None, c)
      | Modifier modifierType params cnt nm \<Rightarrow>
          (case getModifier reg modifierType of
             None \<Rightarrow> Some (None, c)
           | Some modifier \<Rightarrow>
               (case getModifierInputs ev parseInt graph node (inputs modifier) c of
                  None \<Rightarrow> None
                | Some (ins, c') \<Rightarrow>
                    if \<not> inputsValid (inputs modifier) ins then Some (None, c')
                    else Some (applyModifier reg modifierType params ins, c'))))"

definition evaluateNode ::
  "evaluator \<Rightarrow> (string \<Rightarrow> int option) \<Rightarrow> 'p registry \<Rightarrow> 'p Graph \<Rightarrow> 'p Node \<Rightarrow>
   cache \<Rightarrow> (Pattern option \<times> cache) option" where
  "evaluateNode ev parseInt reg graph node c =
     (case nodeData node of
        PatternSource pat nm \<Rightarrow> Some (Some pat, c)
      | Modifier modifierType params cnt nm \<Rightarrow> evaluateModifier ev parseInt reg graph node c)"

fun evaluate ::
  "nat \<Rightarrow> (string \<Rightarrow> int option) \<Rightarrow> 'p registry \<Rightarrow> 'p Graph \<Rightarrow> string \<Rightarrow>
   cache \<Rightarrow> (Pattern option \<times> cache) option" where
  "evaluate 0 parseInt reg graph nId c = None"
| "evaluate (Suc depth) parseInt reg graph nId c =
     (case find (\<lambda>n. nodeId n = nId) (nodes graph) of
        None \<Rightarrow> Some (None, c)
      | Some node \<Rightarrow>
          (case c nId of
             Some cached \<Rightarrow> Some (cached, c)
           | None \<Rightarrow>
               (case evaluateNode (evaluate depth parseInt reg graph) parseInt reg graph node c of
                  None \<Rightarrow> None
                | Some (pat, c') \<Rightarrow> Some (pat, c'(nId \<mapsto> pat)))))"

subsection \<open>invalidateNode\<close>

text \<open>A JavaScript \<open>Set\<close> of strings is the list of its members in insertion order.\<close>

definition setAdd :: "string \<Rightarrow> string list \<Rightarrow> string list" where
  "setAdd x xs = (if x \<in> set xs then xs else xs @ [x])"

text \<open>
  The \<open>while\<close> loop of \<open>getDownstreamNodes\<close>. Inside the \<open>for\<close> loop over the outgoing
  edges \<open>visited\<close> does not change, so the loop adds to \<open>downstream\<close> and pushes on the
  queue the targets that are not visited, in the order of the edges.
\<close>

function getDownstreamLoop ::
  "'p Graph \<Rightarrow> string list \<Rightarrow> string list \<Rightarrow> string list \<Rightarrow> string list" where
  "getDownstreamLoop graph [] visited downstream = downstream"
| "getDownstreamLoop graph (current # queue) visited downstream =
     (if current \<in> set visited then getDownstreamLoop graph queue visited downstream
      else
        let visited' = setAdd current visited;
            outgoingEdges = filter (\<lambda>e. source e = current) (edges graph);
            fresh = filter (\<lambda>t. t \<notin> set visited') (map target outgoingEdges)
        in getDownstreamLoop graph (queue @ fresh) visited' (fold setAdd fresh downstream))"
  by pat_completeness auto
termination
proof (relation "measures
    [\<lambda>(graph, queue, visited, downstream).
        card ((set (map target (edges graph)) \<union> set queue) - set visited),
     \<lambda>(graph, queue, visited, downstream). length queue]")
  show "wf (measures
    [\<lambda>(graph :: 'p Graph, queue, visited, downstream :: string list).
        card ((set (map target (edges graph)) \<union> set queue) - set visited),
     \<lambda>(graph, queue, visited, downstream). length queue])"
    by simp
next
  fix graph :: "'p Graph" and current :: string and queue visited downstream :: "string list"
  assume "current \<in> set visited"
  then have "(set (map target (edges graph)) \<union> set (current # queue)) - set visited
           = (set (map target (edges graph)) \<union> set queue) - set visited"
    by auto
  then show "((graph, queue, visited, downstream), (graph, current # queue, visited, downstream))
      \<in> measures
    [\<lambda>(graph, queue, visited, downstream).
        card ((set (map target (edges graph)) \<union> set queue) - set visited),
     \<lambda>(graph, queue, visited, downstream). length queue]"
    by simp
next
  fix graph :: "'p Graph" and current :: string
    and queue visited downstream visited' fresh :: "string list"
    and outgoingEdges :: "Edge list"
  assume a: "current \<notin> set visited" "visited' = setAdd current visited"
    "outgoingEdges = filter (\<lambda>e. source e = current) (edges graph)"
    "fresh = filter (\<lambda>t. t \<notin> set visited') (map target outgoingEdges)"
  let ?T = "set (map target (edges graph))"
  have "(?T \<union> set (queue @ fresh)) - set visited'
          \<subseteq> ((?T \<union> set (current # queue)) - set visited) - {current}"
    using a by (auto simp: setAdd_def)
  moreover have "current \<in> (?T \<union> set (current # queue)) - set visited"
    using a by simp
  ultimately have "(?T \<union> set (queue @ fresh)) - set visited'
          \<subset> (?T \<union> set (current # queue)) - set visited"
    by blast
  then have "card ((?T \<union> set (queue @ fresh)) - set visited')
           < card ((?T \<union> set (current # queue)) - set visited)"
    by (intro psubset_card_mono) auto
  then show "((graph, queue @ fresh, visited', fold setAdd fresh downstream),
              (graph, current # queue, visited, downstream))
      \<in> measures
    [\<lambda>(graph, queue, visited, downstream).
        card ((set (map target (edges graph)) \<union> set queue) - set visited),
     \<lambda>(graph, queue, visited, downstream). length queue]"
    by simp
qed

definition getDownstreamNodes :: "'p Graph \<Rightarrow> string \<Rightarrow> string list" where
  "getDownstreamNodes graph nId = getDownstreamLoop graph [nId] [] []"

definition invalidateNode :: "'p Graph \<Rightarrow> string \<Rightarrow> cache \<Rightarrow> cache" where
  "invalidateNode graph nId c =
     fold (\<lambda>downstreamId c'. c'(downstreamId := None)) (getDownstreamNodes graph nId)
       (c(nId := None))"

text \<open>Three patterns used as concrete inputs below.\<close>

definition middleC :: Note where
  "middleC = \<lparr>noteDuration = 1 / 4, noteNumber = 60, velocity = 100\<rparr>"

definition twoNotes :: Pattern where
  "twoNotes = createPatternWithBounds [(0, middleC), (1, middleC)] None"

definition lateNote :: Pattern where
  "lateNote = createPatternWithBounds [(2, middleC)] (Some 1)"

definition firstNote :: Pattern where
  "firstNote = createPatternWithBounds [(0, middleC)] None"



section \<open>Graph notions used in the statements\<close>

text \<open>
  The edges of a graph as a relation from source to target, and the nodes downstream of
  a node: those reachable from it along edges, the node itself included.
\<close>

definition edgeRel :: "'p Graph \<Rightarrow> (string \<times> string) set" where
  "edgeRel graph = {(source e, target e) | e. e \<in> set (edges graph)}"

definition downstreamOf :: "'p Graph \<Rightarrow> string \<Rightarrow> string set" where
  "downstreamOf graph nId = {x. (nId, x) \<in> (edgeRel graph)\<^sup>*}"

text \<open>The edges \<open>A \<rightarrow> B \<rightarrow> C\<close>, and a cache with entries for \<open>A\<close>, \<open>B\<close>, \<open>C\<close> and \<open>D\<close>.\<close>

definition chainEdges :: "Edge list" where
  "chainEdges =
     [\<lparr>edgeId = ''e1'', source = ''A'', target = ''B'', targetHandle = Some ''pattern''\<rparr>,
      \<lparr>edgeId = ''e2'', source = ''B'', target = ''C'', targetHandle = Some ''pattern''\<rparr>]"

definition fullCache :: cache where
  "fullCache =
     [''A'' \<mapsto> Some firstNote, ''B'' \<mapsto> Some firstNote, ''C'' \<mapsto> None, ''D'' \<mapsto> Some twoNotes]"

text \<open>
  The pattern that \<open>evaluate\<close> returns for a node from a given cache; \<open>null\<close> also where
  the call does not return.
\<close>

definition evaluated ::
  "nat \<Rightarrow> (string \<Rightarrow> int option) \<Rightarrow> 'p registry \<Rightarrow> 'p Graph \<Rightarrow> cache \<Rightarrow> string \<Rightarrow> Pattern option" where
  "evaluated depth parseInt reg graph c nId =
     (case evaluate depth parseInt reg graph nId c of None \<Rightarrow> None | Some (pat, c') \<Rightarrow> pat)"

text \<open>
  The inputs of a modifier as section 4.4 of the specification describes them, from the
  values \<open>v\<close> of the upstream nodes: for each keyword input the first incoming edge whose
  handle is the key, bound if the value of its source is not \<open>null\<close>; for the positional
  input the incoming edges with a \<open>pos-N\<close> handle, ascending by \<open>N\<close>, with the \<open>null\<close>
  values dropped.
\<close>

fun assembleInputs ::
  "(string \<Rightarrow> Pattern option) \<Rightarrow> (string \<Rightarrow> int option) \<Rightarrow> Edge list \<Rightarrow>
   InputDefinition list \<Rightarrow> ModifierInputs \<Rightarrow> ModifierInputs" where
  "assembleInputs v parseInt incomingEdges [] result = result"
| "assembleInputs v parseInt incomingEdges (Keyword key lbl req # defs) result =
     (case find (\<lambda>e. targetHandle e = Some key) incomingEdges of
        None \<Rightarrow> assembleInputs v parseInt incomingEdges defs result
      | Some edge \<Rightarrow>
          (case v (source edge) of
             None \<Rightarrow> assembleInputs v parseInt incomingEdges defs result
           | Some pat \<Rightarrow>
               assembleInputs v parseInt incomingEdges defs
                 (result\<lparr>keyword :=
                    Some ((case keyword result of None \<Rightarrow> Map.empty | Some m \<Rightarrow> m)(key \<mapsto> pat))\<rparr>)))"
| "assembleInputs v parseInt incomingEdges (Positional minCount lbl # defs) result =
     assembleInputs v parseInt incomingEdges defs
       (result\<lparr>positional :=
          Some (List.map_filter (\<lambda>p. p)
                  (map (\<lambda>e. v (source e))
                     (sortWith (compareEdges parseInt)
                        (filter isPositionalEdge incomingEdges))))\<rparr>)"

definition inputsOf ::
  "(string \<Rightarrow> Pattern option) \<Rightarrow> (string \<Rightarrow> int option) \<Rightarrow> 'p Graph \<Rightarrow> string \<Rightarrow>
   InputDefinition list \<Rightarrow> ModifierInputs" where
  "inputsOf v parseInt graph nId inputDefs =
     assembleInputs v parseInt (filter (\<lambda>e. target e = nId) (edges graph)) inputDefs
       \<lparr>keyword = None, positional = None\<rparr>"

text \<open>The two structural failures of section 7, on assembled inputs.\<close>

definition requiredKeywordUnbound :: "InputDefinition list \<Rightarrow> ModifierInputs \<Rightarrow> bool" where
  "requiredKeywordUnbound inputDefs ins =
     (\<exists>key lbl. Keyword key lbl True \<in> set inputDefs
        \<and> (case keyword ins of None \<Rightarrow> True | Some m \<Rightarrow> m key = None))"

definition positionalBelowMinCount :: "InputDefinition list \<Rightarrow> ModifierInputs \<Rightarrow> bool" where
  "positionalBelowMinCount inputDefs ins =
     (\<exists>minCount lbl. Positional minCount lbl \<in> set inputDefs
        \<and> (case positional ins of None \<Rightarrow> 0 | Some ps \<Rightarrow> int (length ps)) < minCount)"

text \<open>A ranking of the node ids that every edge climbs; a graph that has one is acyclic.\<close>

definition topological :: "'p Graph \<Rightarrow> (string \<Rightarrow> nat) \<Rightarrow> bool" where
  "topological graph rank = (\<forall>e \<in> set (edges graph). rank (source e) < rank (target e))"

definition ancestorCount :: "'p Graph \<Rightarrow> string \<Rightarrow> nat" where
  "ancestorCount graph x = card {y. (y, x) \<in> (edgeRel graph)\<^sup>+}"

text \<open>
  The value of a node from the values \<open>v\<close> of the nodes upstream of it: the stored
  pattern of a source; for a modifier the result of \<open>applyModifier\<close> on the assembled
  inputs, or \<open>null\<close> if the modifier type is unknown or the inputs fail the validation.
\<close>

definition nodeValue ::
  "(string \<Rightarrow> Pattern option) \<Rightarrow> (string \<Rightarrow> int option) \<Rightarrow> 'p registry \<Rightarrow> 'p Graph \<Rightarrow>
   'p Node \<Rightarrow> Pattern option" where
  "nodeValue v parseInt reg graph node =
     (case nodeData node of
        PatternSource pat nm \<Rightarrow> Some pat
      | Modifier modifierType params cnt nm \<Rightarrow>
          (case getModifier reg modifierType of
             None \<Rightarrow> None
           | Some modifier \<Rightarrow>
               if inputsValid (inputs modifier)
                    (inputsOf v parseInt graph (nodeId node) (inputs modifier))
               then applyModifier reg modifierType params
                      (inputsOf v parseInt graph (nodeId node) (inputs modifier))
               else None))"

text \<open>
  A cache \<open>c\<close> that differs from \<open>c0\<close> only by entries added for nodes that had none,
  each holding the value \<open>v\<close> of its node.
\<close>

definition coherent :: "(string \<Rightarrow> Pattern option) \<Rightarrow> cache \<Rightarrow> cache \<Rightarrow> bool" where
  "coherent v c0 c = (\<forall>x. c x = c0 x \<or> (c0 x = None \<and> c x = Some (v x)))"



section \<open>The registered modifiers without parameters, and an example graph\<close>

text \<open>
  \<open>execute: ({ positional }) => union(...positional!)\<close>, the same for \<open>concat\<close>, and
  \<open>execute: ({ keyword }) => reverse(keyword!.pattern)\<close>: spreading \<open>undefined\<close> and
  reading a field of \<open>undefined\<close> throw a \<open>TypeError\<close>.
\<close>

definition unionModifier :: "'p ModifierDefinition" where
  "unionModifier =
     \<lparr>modifierName = ''union'', displayName = ''Union'',
      inputs = [Positional 2 (Some ''Patterns'')],
      execute = (\<lambda>ins params. case positional ins of
                   None \<Rightarrow> Inl TypeError
                 | Some ps \<Rightarrow> Inr (Some (union_patterns ps)))\<rparr>"

definition concatModifier :: "'p ModifierDefinition" where
  "concatModifier =
     \<lparr>modifierName = ''concat'', displayName = ''Concat'',
      inputs = [Positional 2 (Some ''Patterns'')],
      execute = (\<lambda>ins params. case positional ins of
                   None \<Rightarrow> Inl TypeError
                 | Some ps \<Rightarrow> Inr (Some (concat_patterns ps)))\<rparr>"

definition reverseModifier :: "'p ModifierDefinition" where
  "reverseModifier =
     \<lparr>modifierName = ''reverse'', displayName = ''Reverse'',
      inputs = [Keyword ''pattern'' ''Input'' True],
      execute = (\<lambda>ins params. case keyword ins of
                   None \<Rightarrow> Inl TypeError
                 | Some m \<Rightarrow> (case m ''pattern'' of
                                None \<Rightarrow> Inl TypeError
                              | Some pat \<Rightarrow> Inr (Some (reverse pat))))\<rparr>"

definition sampleRegistry :: "unit registry" where
  "sampleRegistry =
     registerModifier reverseModifier
       (registerModifier concatModifier (registerModifier unionModifier Map.empty))"

text \<open>
  A source \<open>A\<close>, its reversal \<open>R\<close>, a \<open>reverse\<close> node \<open>U\<close> with nothing connected, and a
  \<open>concat\<close> node \<open>K\<close> of \<open>A\<close>, \<open>U\<close> and \<open>R\<close>, in this order of its positional handles.
\<close>

definition sampleNodes :: "unit Node list" where
  "sampleNodes =
     [\<lparr>nodeId = ''A'', nodeData = PatternSource twoNotes ''source''\<rparr>,
      \<lparr>nodeId = ''R'', nodeData = Modifier ''reverse'' () None ''reversed''\<rparr>,
      \<lparr>nodeId = ''U'', nodeData = Modifier ''reverse'' () None ''unconnected''\<rparr>,
      \<lparr>nodeId = ''K'', nodeData = Modifier ''concat'' () (Some 3) ''joined''\<rparr>]"

definition edgeAR :: Edge where
  "edgeAR = \<lparr>edgeId = ''e1'', source = ''A'', target = ''R'', targetHandle = Some ''pattern''\<rparr>"

definition edgeAK :: Edge where
  "edgeAK = \<lparr>edgeId = ''e2'', source = ''A'', target = ''K'', targetHandle = Some ''pos-0''\<rparr>"

definition edgeUK :: Edge where
  "edgeUK = \<lparr>edgeId = ''e3'', source = ''U'', target = ''K'', targetHandle = Some ''pos-1''\<rparr>"

definition edgeRK :: Edge where
  "edgeRK = \<lparr>edgeId = ''e4'', source = ''R'', target = ''K'', targetHandle = Some ''pos-2''\<rparr>"

definition sampleGraph :: "unit Graph" where
  "sampleGraph = \<lparr>nodes = sampleNodes, edges = [edgeAR, edgeAK, edgeUK, edgeRK]\<rparr>"

definition sampleRank :: "string \<Rightarrow> nat" where
  "sampleRank x = (if x = ''K'' then 2 else if x = ''R'' then 1 else 0)"

text \<open>A \<open>reverse\<close> node whose input is its own output.\<close>

definition loopGraph :: "unit Graph" where
  "loopGraph =
     \<lparr>nodes = [\<lparr>nodeId = ''L'', nodeData = Modifier ''reverse'' () None ''loop''\<rparr>],
      edges = [\<lparr>edgeId = ''e1'', source = ''L'', target = ''L'', targetHandle = Some ''pattern''\<rparr>]\<rparr>"

section \<open>detectCycles (src/engine/graphEvaluator.ts)\<close>

text \<open>
  The three variables that the closure \<open>dfs\<close> shares: the sets \<open>visited\<close> (here
  \<open>visitedSet\<close>) and \<open>recursionStack\<close>, and the array \<open>cycles\<close>.
\<close>

record DfsState =
  visitedSet :: "string list"
  recursionStack :: "string list"
  cycles :: "string list"

text \<open>\<open>Array.prototype.indexOf\<close> (\<open>-1\<close> when absent) and \<open>slice\<close> with one argument.\<close>

fun indexOf :: "string list \<Rightarrow> string \<Rightarrow> int" where
  "indexOf [] x = - 1"
| "indexOf (y # ys) x =
     (if y = x then 0 else (let i = indexOf ys x in if i < 0 then - 1 else i + 1))"

definition slice :: "string list \<Rightarrow> int \<Rightarrow> string list" where
  "slice xs start =
     (if start < 0 then drop (nat (max (int (length xs) + start) 0)) xs
      else drop (nat start) xs)"

text \<open>
  \<open>dfs\<close> calls itself from inside its loop over the outgoing edges; \<open>dfsEdges\<close> is that
  loop, on the edges still to be looked at. Each recursive call gets its own copy of
  \<open>path\<close>, so the path is an argument, and the shared variables are passed and returned.
  As for \<open>evaluate\<close>, the first argument is the call depth that the stack still
  allows, and \<open>None\<close> is its exhaustion.
\<close>

fun dfs :: "nat \<Rightarrow> 'p Graph \<Rightarrow> string \<Rightarrow> string list \<Rightarrow> DfsState \<Rightarrow> (bool \<times> DfsState) option"
and dfsEdges ::
  "nat \<Rightarrow> 'p Graph \<Rightarrow> string list \<Rightarrow> Edge list \<Rightarrow> DfsState \<Rightarrow> (bool \<times> DfsState) option" where
  "dfs 0 graph nId path s = None"
| "dfs (Suc depth) graph nId path s =
     (case dfsEdges depth graph (path @ [nId]) (filter (\<lambda>e. source e = nId) (edges graph))
             (s\<lparr>visitedSet := setAdd nId (visitedSet s),
                recursionStack := setAdd nId (recursionStack s)\<rparr>) of
        None \<Rightarrow> None
      | Some (found, s') \<Rightarrow>
          if found then Some (True, s')
          else Some (False, s'\<lparr>recursionStack := removeAll nId (recursionStack s')\<rparr>))"
| "dfsEdges depth graph path [] s = Some (False, s)"
| "dfsEdges depth graph path (edge # rest) s =
     (if target edge \<notin> set (visitedSet s) then
        (case dfs depth graph (target edge) path s of
           None \<Rightarrow> None
         | Some (found, s') \<Rightarrow>
             if found then Some (True, s') else dfsEdges depth graph path rest s')
      else if target edge \<in> set (recursionStack s) then
        Some (True,
              s\<lparr>cycles := cycles s @ slice path (indexOf path (target edge)) @ [target edge]\<rparr>)
      else dfsEdges depth graph path rest s)"

fun detectLoop :: "nat \<Rightarrow> 'p Graph \<Rightarrow> 'p Node list \<Rightarrow> DfsState \<Rightarrow> string list option option" where
  "detectLoop depth graph [] s = Some None"
| "detectLoop depth graph (node # rest) s =
     (if nodeId node \<notin> set (visitedSet s) then
        (case dfs depth graph (nodeId node) [] s of
           None \<Rightarrow> None
         | Some (found, s') \<Rightarrow>
             if found then Some (Some (cycles s')) else detectLoop depth graph rest s')
      else detectLoop depth graph rest s)"

definition detectCycles :: "nat \<Rightarrow> 'p Graph \<Rightarrow> string list option option" where
  "detectCycles depth graph =
     detectLoop depth graph (nodes graph) \<lparr>visitedSet = [], recursionStack = [], cycles = []\<rparr>"

subsection \<open>Notions for the statement about detectCycles\<close>

text \<open>
  A cyclic witness: at least two entries, each followed by a target of one of its edges,
  the last equal to the first, and no node twice before the last.
\<close>

definition cycleWitness :: "'p Graph \<Rightarrow> string list \<Rightarrow> bool" where
  "cycleWitness graph w =
     (2 \<le> length w \<and> hd w = last w \<and> distinct (butlast w)
      \<and> successively (\<lambda>a b. (a, b) \<in> edgeRel graph) w)"

text \<open>The ids that some node of the graph reaches along edges.\<close>

definition reachable :: "'p Graph \<Rightarrow> string set" where
  "reachable graph = {x. \<exists>n \<in> set (nodes graph). (nodeId n, x) \<in> (edgeRel graph)\<^sup>*}"

text \<open>
  The nodes that \<open>dfs\<close> has left are visited and off the stack. What the search keeps
  true of them: their edges lead to such nodes again, and none of them lies on a cycle.
\<close>

definition finished :: "DfsState \<Rightarrow> string set" where
  "finished s = set (visitedSet s) - set (recursionStack s)"

definition dfsInv :: "'p Graph \<Rightarrow> DfsState \<Rightarrow> bool" where
  "dfsInv graph s =
     (set (recursionStack s) \<subseteq> set (visitedSet s)
      \<and> (\<forall>b \<in> finished s. \<forall>t. (b, t) \<in> edgeRel graph \<longrightarrow> t \<in> finished s)
      \<and> (\<forall>b \<in> finished s. (b, b) \<notin> (edgeRel graph)\<^sup>+)
      \<and> cycles s = [])"

definition pathInv :: "'p Graph \<Rightarrow> string list \<Rightarrow> DfsState \<Rightarrow> bool" where
  "pathInv graph path s =
     (set path = set (recursionStack s) \<and> distinct path
      \<and> successively (\<lambda>a b. (a, b) \<in> edgeRel graph) path
      \<and> set path \<subseteq> reachable graph)"

text \<open>The edges \<open>A \<rightarrow> B \<rightarrow> A\<close> between two \<open>reverse\<close> nodes.\<close>

definition twoCycle :: "unit Graph" where
  "twoCycle =
     \<lparr>nodes = [\<lparr>nodeId = ''A'', nodeData = Modifier ''reverse'' () None ''a''\<rparr>,
               \<lparr>nodeId = ''B'', nodeData = Modifier ''reverse'' () None ''b''\<rparr>],
      edges = [\<lparr>edgeId = ''e1'', source = ''A'', target = ''B'', targetHandle = Some ''pattern''\<rparr>,
               \<lparr>edgeId = ''e2'', source = ''B'', target = ''A'', targetHandle = Some ''pattern''\<rparr>]\<rparr>"

text \<open>
  A node \<open>D\<close> without edges, beside the edges \<open>X \<rightarrow> Y \<rightarrow> X\<close> between two ids that are
  not nodes of the graph.
\<close>

definition danglingCycle :: "unit Graph" where
  "danglingCycle =
     \<lparr>nodes = [\<lparr>nodeId = ''D'', nodeData = PatternSource firstNote ''d''\<rparr>],
      edges = [\<lparr>edgeId = ''e1'', source = ''X'', target = ''Y'', targetHandle = Some ''pattern''\<rparr>,
               \<lparr>edgeId = ''e2'', source = ''Y'', target = ''X'', targetHandle = Some ''pattern''\<rparr>]\<rparr>"

text \<open>
  What a call of \<open>dfs\<close> leaves when it has found a cycle, and when it has not; and the
  targets of edges not yet visited, which bound the depth of the calls still to come.
\<close>

definition dfsFound :: "'p Graph \<Rightarrow> DfsState \<Rightarrow> bool" where
  "dfsFound graph s' = (cycleWitness graph (cycles s') \<and> hd (cycles s') \<in> reachable graph)"

definition dfsContinues :: "'p Graph \<Rightarrow> DfsState \<Rightarrow> DfsState \<Rightarrow> bool" where
  "dfsContinues graph s s' =
     (dfsInv graph s' \<and> set (visitedSet s) \<subseteq> set (visitedSet s')
      \<and> recursionStack s' = recursionStack s)"

definition unvisitedTargets :: "'p Graph \<Rightarrow> DfsState \<Rightarrow> string set" where
  "unvisitedTargets graph s = target ` set (edges graph) - set (visitedSet s)"

section \<open>Properties of the pattern algebra\<close>

lemma pnotes_create [simp]: "pnotes (createPatternWithBounds ns d) = ns"
  by (simp add: createPatternWithBounds_def)

lemma duration_create [simp]: "duration (createPatternWithBounds ns d) = d"
  by (simp add: createPatternWithBounds_def)

lemma effectiveDuration_create:
  "effectiveDuration (createPatternWithBounds ns (Some d)) = d"
  by (simp add: effectiveDuration_def createPatternWithBounds_def)

lemma effectiveDuration_empty: "effectiveDuration (createPattern None nm) = 0"
  by (simp add: effectiveDuration_def createPattern_def calculateDuration_def)

lemma sortedByStart_sort: "sortedByStart (sortByStart ns)"
  by (simp add: sortedByStart_def sortByStart_def)

subsection \<open>concat\<close>

lemma concatLoop_eq:
  "concatLoop ps acc t =
     (acc @ List.concat
        (map (\<lambda>k. map (\<lambda>sn. (t + sum_list (map effectiveDuration (take k ps)) + fst sn, snd sn))
                      (pnotes (ps ! k))) [0..<length ps]),
      t + sum_list (map effectiveDuration ps))"
proof (induction ps arbitrary: acc t)
  case Nil
  then show ?case by simp
next
  case (Cons p ps)
  have "[0..<length (p # ps)] = 0 # map Suc [0..<length ps]"
    by (simp add: upt_conv_Cons map_Suc_upt del: upt_Suc)
  then show ?case
    by (simp add: Cons.IH comp_def add.assoc del: upt_Suc)
qed

text \<open>
  C1. For every list of patterns, the effective duration of \<open>concat\<close>'s output is the sum
  of the inputs' effective durations, and its notes are, in the order of the inputs, the
  notes of pattern \<open>k\<close> each moved by the sum of the effective durations of patterns
  \<open>0..k-1\<close>; nothing sorts them afterwards. For a non-empty list the duration field holds
  that sum. For two patterns \<open>A\<close>, \<open>B\<close>: the duration is the sum of the two and the notes
  are those of \<open>A\<close> followed by those of \<open>B\<close> moved by the effective duration of \<open>A\<close>.
\<close>

theorem concat_law:
  "effectiveDuration (concat_patterns ps) = sum_list (map effectiveDuration ps)
   \<and> pnotes (concat_patterns ps) =
       List.concat
         (map (\<lambda>k. map (\<lambda>sn. (sum_list (map effectiveDuration (take k ps)) + fst sn, snd sn))
                       (pnotes (ps ! k))) [0..<length ps])
   \<and> duration (concat_patterns (p # ps)) = Some (sum_list (map effectiveDuration (p # ps)))
   \<and> effectiveDuration (concat_patterns [A, B]) = effectiveDuration A + effectiveDuration B
   \<and> pnotes (concat_patterns [A, B]) =
       pnotes A @ map (\<lambda>sn. (effectiveDuration A + fst sn, snd sn)) (pnotes B)"
proof -
  have d: "effectiveDuration (concat_patterns qs) = sum_list (map effectiveDuration qs)" for qs
    by (simp add: concat_patterns_def effectiveDuration_create effectiveDuration_empty
        concatLoop_eq del: concatLoop.simps)
  have n: "pnotes (concat_patterns ps) =
       List.concat
         (map (\<lambda>k. map (\<lambda>sn. (sum_list (map effectiveDuration (take k ps)) + fst sn, snd sn))
                       (pnotes (ps ! k))) [0..<length ps])"
    by (simp add: concat_patterns_def createPattern_def createPatternWithBounds_def
        concatLoop_eq del: concatLoop.simps upt_Suc)
  have e: "duration (concat_patterns (p # ps)) = Some (sum_list (map effectiveDuration (p # ps)))"
    by (simp add: concat_patterns_def createPatternWithBounds_def concatLoop_eq
        del: concatLoop.simps upt_Suc)
  have b: "pnotes (concat_patterns [A, B]) =
       pnotes A @ map (\<lambda>sn. (effectiveDuration A + fst sn, snd sn)) (pnotes B)"
    by (simp add: concat_patterns_def createPatternWithBounds_def)
  from d[of ps] d[of "[A, B]"] n e b show ?thesis by simp
qed

subsection \<open>trim\<close>

lemma trimLoop_eq:
  "trimLoop te d ns acc =
     acc @ map (\<lambda>sn. if te \<and> fst sn + noteDuration (snd sn) > d
                       then (fst sn, (snd sn)\<lparr>noteDuration := d - fst sn\<rparr>) else sn)
               (filter (\<lambda>sn. 0 \<le> fst sn \<and> fst sn < d) ns)"
  by (induction te d ns acc rule: trimLoop.induct) (auto simp: Let_def)

text \<open>
  C8. With \<open>d\<close> the effective duration of the input, the notes of \<open>trim\<close>'s output are
  the input's notes with \<open>0 \<le> start < d\<close>, in their order (so exactly the notes with
  \<open>start < 0\<close> or \<open>start \<ge> d\<close> are dropped); a kept note whose end exceeds \<open>d\<close> gets
  the note duration \<open>d - start\<close> when \<open>trimEnd\<close> is true and is unchanged when it is
  false; every other kept note is unchanged; the output's duration is \<open>d\<close>.
\<close>

theorem trim_law:
  "pnotes (trim p te) =
     map (\<lambda>sn. if te \<and> fst sn + noteDuration (snd sn) > effectiveDuration p
                then (fst sn, (snd sn)\<lparr>noteDuration := effectiveDuration p - fst sn\<rparr>) else sn)
         (filter (\<lambda>sn. 0 \<le> fst sn \<and> fst sn < effectiveDuration p) (pnotes p))
   \<and> duration (trim p te) = Some (effectiveDuration p)"
  by (simp add: trim_def Let_def createPatternWithBounds_def trimLoop_eq)

lemma sortedByStart_same_starts:
  "map fst ms = map fst ns \<Longrightarrow> sortedByStart ns \<Longrightarrow> sortedByStart ms"
  by (simp add: sortedByStart_def)

lemma sorted_filter_fst: "sortedByStart ns \<Longrightarrow> sortedByStart (filter P ns)"
  unfolding sortedByStart_def by (induction ns) auto

lemma sorted_shift: "sortedByStart ns \<Longrightarrow> sortedByStart (map (\<lambda>sn. (fst sn - c, g sn)) ns)"
  unfolding sortedByStart_def by (induction ns) auto

lemma sorted_scale:
  "sortedByStart ns \<Longrightarrow> 0 \<le> f \<Longrightarrow> sortedByStart (map (\<lambda>sn. (fst sn * f, g sn)) ns)"
  unfolding sortedByStart_def by (induction ns) (auto simp: mult_right_mono)

lemma sorted_trim: "sortedByStart (pnotes p) \<Longrightarrow> sortedByStart (pnotes (trim p te))"
proof -
  assume s: "sortedByStart (pnotes p)"
  let ?d = "effectiveDuration p"
  let ?k = "filter (\<lambda>sn. 0 \<le> fst sn \<and> fst sn < ?d) (pnotes p)"
  have "map fst (pnotes (trim p te)) = map fst ?k"
    by (simp add: trim_def Let_def trimLoop_eq comp_def)
  then show ?thesis using sorted_filter_fst[OF s] sortedByStart_same_starts by blast
qed

lemma mathRound_of_int: "mathRound (of_int n) = n"
  unfolding mathRound_def by linarith

lemma mathRound_0: "mathRound 0 = 0"
  using mathRound_of_int[of 0] by simp

lemma mathRound_1: "mathRound 1 = 1"
  using mathRound_of_int[of 1] by simp

lemma concat_unsorted:
  "pnotes (concat_patterns [lateNote, firstNote]) = [(2, middleC), (1, middleC)]"
  by (simp add: concat_patterns_def lateNote_def firstNote_def effectiveDuration_create)

subsection \<open>Sorted outputs\<close>

text \<open>
  C2 (as amended). \<open>union\<close>, \<open>reverse\<close> and \<open>quantize\<close> sort their notes and so return
  notes ascending by start time for every input. \<open>invert\<close>, \<open>transpose\<close>,
  \<open>scaleDuration\<close>, \<open>setDuration\<close>, \<open>scaleVelocity\<close>, \<open>setVelocity\<close>, \<open>trim\<close> and
  \<open>view\<close> do not sort: their output is ascending whenever their input is, and so is the
  output of \<open>stretch\<close> when moreover the factor is not negative. \<open>concat\<close> can return
  notes that are not ascending from inputs that are.
\<close>

theorem sorted_outputs:
  "sortedByStart (pnotes (union_patterns ps))
   \<and> sortedByStart (pnotes (reverse p))
   \<and> (\<forall>q. quantize rnd p grid = Inr q \<longrightarrow> sortedByStart (pnotes q))
   \<and> (sortedByStart (pnotes p) \<longrightarrow>
        sortedByStart (pnotes (invert p pivot))
      \<and> sortedByStart (pnotes (transpose_pattern p semitones))
      \<and> sortedByStart (pnotes (scaleDuration p f))
      \<and> sortedByStart (pnotes (setDuration p dur))
      \<and> sortedByStart (pnotes (scaleVelocity p factor))
      \<and> sortedByStart (pnotes (setVelocity p v))
      \<and> sortedByStart (pnotes (trim p trimEnd))
      \<and> sortedByStart (pnotes (view p start endTime))
      \<and> (0 \<le> f \<longrightarrow> sortedByStart (pnotes (stretch p f))))
   \<and> sortedByStart (pnotes lateNote) \<and> sortedByStart (pnotes firstNote)
   \<and> \<not> sortedByStart (pnotes (concat_patterns [lateNote, firstNote]))"
proof -
  have u: "sortedByStart (pnotes (union_patterns ps))"
    by (simp add: union_patterns_def sortedByStart_sort) (simp add: createPattern_def sortedByStart_def)
  have r: "sortedByStart (pnotes (reverse p))"
    by (simp add: reverse_def Let_def sortedByStart_sort)
  have q: "\<forall>q. quantize rnd p grid = Inr q \<longrightarrow> sortedByStart (pnotes q)"
    by (auto simp: quantize_def Let_def sortedByStart_sort split: if_splits)
  have m: "sortedByStart (pnotes (invert p pivot))
      \<and> sortedByStart (pnotes (transpose_pattern p semitones))
      \<and> sortedByStart (pnotes (scaleDuration p f))
      \<and> sortedByStart (pnotes (setDuration p dur))
      \<and> sortedByStart (pnotes (scaleVelocity p factor))
      \<and> sortedByStart (pnotes (setVelocity p v))" if "sortedByStart (pnotes p)"
    using that
    by (simp add: invert_def transpose_pattern_def scaleDuration_def setDuration_def
        scaleVelocity_def setVelocity_def Let_def sortedByStart_def comp_def)
  have v: "sortedByStart (pnotes (view p start endTime))" if "sortedByStart (pnotes p)"
    using sorted_shift[OF that] by (simp add: view_def Let_def)
  have s: "sortedByStart (pnotes (stretch p f))" if "sortedByStart (pnotes p)" "0 \<le> f"
    using sorted_scale[OF that] by (simp add: stretch_def Let_def)
  have c: "sortedByStart (pnotes lateNote) \<and> sortedByStart (pnotes firstNote)
   \<and> \<not> sortedByStart (pnotes (concat_patterns [lateNote, firstNote]))"
    unfolding concat_unsorted by (simp add: lateNote_def firstNote_def sortedByStart_def)
  from u r q m v s c sorted_trim show ?thesis by blast
qed

text \<open>The hypotheses of C2 hold at the pattern \<open>twoNotes\<close>, the factor 2 and the grid 1.\<close>

theorem sorted_outputs_witness:
  "sortedByStart (pnotes twoNotes) \<and> (0::rat) \<le> 2
   \<and> quantize mathRound twoNotes 1 =
        Inr (createPatternWithBounds [(0, middleC), (1, middleC)] (Some (5 / 4)))
   \<and> sortedByStart (pnotes (invert twoNotes 64))
   \<and> sortedByStart (pnotes (trim twoNotes True))
   \<and> sortedByStart (pnotes (stretch twoNotes 2))
   \<and> pnotes (stretch twoNotes 2) =
        [(0, \<lparr>noteDuration = 1 / 2, noteNumber = 60, velocity = 100\<rparr>),
         (2, \<lparr>noteDuration = 1 / 2, noteNumber = 60, velocity = 100\<rparr>)]"
proof -
  have h: "sortedByStart (pnotes twoNotes)" by (simp add: twoNotes_def sortedByStart_def)
  have z: "(0::rat) \<le> 2" by simp
  have q: "quantize mathRound twoNotes 1 =
        Inr (createPatternWithBounds [(0, middleC), (1, middleC)] (Some (5 / 4)))"
    by (simp add: quantize_def twoNotes_def mathRound_0 mathRound_1 sortByStart_def
        createPatternWithBounds_def calculateDuration_def Let_def middleC_def)
  have n: "pnotes (stretch twoNotes 2) =
        [(0, \<lparr>noteDuration = 1 / 2, noteNumber = 60, velocity = 100\<rparr>),
         (2, \<lparr>noteDuration = 1 / 2, noteNumber = 60, velocity = 100\<rparr>)]"
    by (simp add: stretch_def twoNotes_def middleC_def Let_def)
  from sorted_outputs[where p = twoNotes and f = 2 and rnd = mathRound and grid = 1
      and pivot = 64 and trimEnd = True] h z q n
  show ?thesis by blast
qed

text \<open>
  C2 as stated fails: \<open>stretch\<close> by \<open>-1\<close> of an ascending pattern is not ascending, and
  \<open>invert\<close> of \<open>concat\<close>'s output above is not ascending.
\<close>

theorem sorted_outputs_counterexample:
  "sortedByStart (pnotes twoNotes)
   \<and> \<not> sortedByStart (pnotes (stretch twoNotes (- 1)))
   \<and> \<not> sortedByStart (pnotes (invert (concat_patterns [lateNote, firstNote]) 60))"
  by (simp add: concat_unsorted invert_def Let_def)
     (simp add: stretch_def twoNotes_def sortedByStart_def Let_def)

subsection \<open>The duration field of a modifier's output\<close>

text \<open>
  C10 (as amended). Called with at least one pattern, each of the thirteen modifier
  functions that returns, returns a pattern whose duration field is not \<open>null\<close>, whatever
  the duration fields of the inputs: \<open>concat\<close> and \<open>union\<close> of a non-empty list, and the
  unary modifiers; \<open>quantize\<close> returns whenever the grid is not zero.
\<close>

theorem modifier_duration_present:
  "duration (concat_patterns (p # ps)) \<noteq> None
   \<and> duration (union_patterns (p # ps)) \<noteq> None
   \<and> duration (reverse p) \<noteq> None
   \<and> duration (invert p pivot) \<noteq> None
   \<and> duration (transpose_pattern p semitones) \<noteq> None
   \<and> duration (stretch p f) \<noteq> None
   \<and> duration (scaleDuration p f) \<noteq> None
   \<and> duration (setDuration p dur) \<noteq> None
   \<and> duration (scaleVelocity p factor) \<noteq> None
   \<and> duration (setVelocity p v) \<noteq> None
   \<and> duration (trim p trimEnd) \<noteq> None
   \<and> duration (view p start endTime) \<noteq> None
   \<and> (\<forall>q. quantize rnd p grid = Inr q \<longrightarrow> duration q \<noteq> None)
   \<and> (grid \<noteq> 0 \<longrightarrow> (\<exists>q. quantize rnd p grid = Inr q))"
  by (auto simp: concat_patterns_def union_patterns_def reverse_def invert_def
      transpose_pattern_def stretch_def scaleDuration_def setDuration_def scaleVelocity_def
      setVelocity_def trim_def view_def quantize_def Let_def split: option.splits if_splits)

text \<open>C10 at the pattern \<open>firstNote\<close>, whose duration field is \<open>null\<close>, and the grid 1.\<close>

theorem modifier_duration_present_witness:
  "duration firstNote = None \<and> (1 :: rat) \<noteq> 0
   \<and> quantize mathRound firstNote 1 = Inr (createPatternWithBounds [(0, middleC)] (Some (1 / 4)))
   \<and> duration (concat_patterns [firstNote, firstNote]) = Some (1 / 2)
   \<and> duration (invert firstNote 64) = Some (1 / 4)
   \<and> duration (view firstNote 0 None) = Some (1 / 4)"
proof -
  have q: "quantize mathRound firstNote 1 = Inr (createPatternWithBounds [(0, middleC)] (Some (1 / 4)))"
    by (simp add: quantize_def firstNote_def mathRound_0 sortByStart_def
        createPatternWithBounds_def calculateDuration_def Let_def middleC_def)
  have e: "effectiveDuration firstNote = 1 / 4"
    by (simp add: effectiveDuration_def firstNote_def calculateDuration_def middleC_def)
  have c: "duration (concat_patterns [firstNote, firstNote]) = Some (1 / 2)"
    by (simp add: concat_patterns_def e)
  have i: "duration (invert firstNote 64) = Some (1 / 4)"
    by (simp add: invert_def firstNote_def Let_def calculateDuration_def middleC_def)
  have v: "duration (view firstNote 0 None) = Some (1 / 4)"
    by (simp add: view_def Let_def e)
  from modifier_duration_present[where p = firstNote and ps = "[firstNote]" and rnd = mathRound
      and grid = 1 and pivot = 64 and start = 0 and endTime = None] q c i v
  show ?thesis by (simp add: firstNote_def)
qed

text \<open>
  C10 as stated fails: \<open>concat\<close> and \<open>union\<close> of no pattern return
  \<open>createPattern()\<close>, whose duration field is \<open>null\<close>.
\<close>

theorem modifier_duration_counterexample:
  "duration (concat_patterns []) = None \<and> duration (union_patterns []) = None"
  by (simp add: concat_patterns_def union_patterns_def createPattern_def)

subsection \<open>reverse\<close>









section \<open>Properties of invalidateNode\<close>

lemma set_setAdd [simp]: "set (setAdd x xs) = insert x (set xs)"
  by (auto simp: setAdd_def)

lemma set_fold_setAdd [simp]: "set (fold setAdd ys xs) = set xs \<union> set ys"
  by (induction ys arbitrary: xs) auto

lemma successors_targets:
  "set (map target (filter (\<lambda>e. source e = v) (edges graph))) = {t. (v, t) \<in> edgeRel graph}"
  by (auto simp: edgeRel_def)

lemma getDownstreamLoop_sound:
  "set queue \<subseteq> downstreamOf graph n \<Longrightarrow> set downstream \<subseteq> downstreamOf graph n
   \<Longrightarrow> set (getDownstreamLoop graph queue visited downstream) \<subseteq> downstreamOf graph n"
proof (induction graph queue visited downstream rule: getDownstreamLoop.induct)
  case (1 graph visited downstream)
  then show ?case by simp
next
  case (2 graph current queue visited downstream)
  show ?case
  proof (cases "current \<in> set visited")
    case True
    then show ?thesis using 2 by simp
  next
    case False
    let ?visited' = "setAdd current visited"
    let ?out = "filter (\<lambda>e. source e = current) (edges graph)"
    let ?fresh = "filter (\<lambda>t. t \<notin> set ?visited') (map target ?out)"
    have cur: "(n, current) \<in> (edgeRel graph)\<^sup>*" using 2(3) by (simp add: downstreamOf_def)
    have "set ?fresh \<subseteq> {t. (current, t) \<in> edgeRel graph}"
      using successors_targets[of current graph] by auto
    then have f: "set ?fresh \<subseteq> downstreamOf graph n"
      using cur by (auto simp: downstreamOf_def intro: rtrancl_into_rtrancl)
    have "set (getDownstreamLoop graph (queue @ ?fresh) ?visited' (fold setAdd ?fresh downstream))
            \<subseteq> downstreamOf graph n"
      using 2(2)[OF False refl refl refl] 2(3,4) f by simp
    then show ?thesis using False by (simp add: Let_def)
  qed
qed

lemma getDownstreamLoop_complete:
  "\<forall>v\<in>set visited. \<forall>t. (v, t) \<in> edgeRel graph \<longrightarrow> t \<in> set visited \<union> set queue
   \<Longrightarrow> set queue \<union> set visited \<subseteq> insert n (set downstream)
   \<Longrightarrow> n \<in> set visited \<union> set queue
   \<Longrightarrow> downstreamOf graph n \<subseteq> insert n (set (getDownstreamLoop graph queue visited downstream))"
proof (induction graph queue visited downstream rule: getDownstreamLoop.induct)
  case (1 graph visited downstream)
  have "x \<in> set visited" if "(n, x) \<in> (edgeRel graph)\<^sup>*" for x
    using that
  proof (induction rule: rtrancl_induct)
    case base
    then show ?case using 1(3) by simp
  next
    case (step y z)
    then show ?case using 1(1) by auto
  qed
  then show ?case using 1(2) by (auto simp: downstreamOf_def)
next
  case (2 graph current queue visited downstream)
  show ?case
  proof (cases "current \<in> set visited")
    case True
    have "downstreamOf graph n \<subseteq> insert n (set (getDownstreamLoop graph queue visited downstream))"
    proof (rule 2(1)[OF True])
      show "\<forall>v\<in>set visited. \<forall>t. (v, t) \<in> edgeRel graph \<longrightarrow> t \<in> set visited \<union> set queue"
        using 2(3) True by auto
      show "set queue \<union> set visited \<subseteq> insert n (set downstream)" using 2(4) by auto
      show "n \<in> set visited \<union> set queue" using 2(5) True by auto
    qed
    then show ?thesis using True by simp
  next
    case False
    let ?visited' = "setAdd current visited"
    let ?out = "filter (\<lambda>e. source e = current) (edges graph)"
    let ?fresh = "filter (\<lambda>t. t \<notin> set ?visited') (map target ?out)"
    have succ: "{t. (current, t) \<in> edgeRel graph} \<subseteq> set ?visited' \<union> set ?fresh"
      using successors_targets[of current graph] by auto
    have "downstreamOf graph n
            \<subseteq> insert n (set (getDownstreamLoop graph (queue @ ?fresh) ?visited'
                                 (fold setAdd ?fresh downstream)))"
    proof (rule 2(2)[OF False refl refl refl])
      show "\<forall>v\<in>set ?visited'. \<forall>t. (v, t) \<in> edgeRel graph \<longrightarrow>
              t \<in> set ?visited' \<union> set (queue @ ?fresh)"
        using 2(3) succ by auto
      show "set (queue @ ?fresh) \<union> set ?visited' \<subseteq> insert n (set (fold setAdd ?fresh downstream))"
        using 2(4) by auto
      show "n \<in> set ?visited' \<union> set (queue @ ?fresh)" using 2(5) by auto
    qed
    then show ?thesis using False by (simp add: Let_def)
  qed
qed

lemma getDownstreamNodes_eq:
  "insert n (set (getDownstreamNodes graph n)) = downstreamOf graph n"
proof
  have "set (getDownstreamLoop graph [n] [] []) \<subseteq> downstreamOf graph n"
    by (rule getDownstreamLoop_sound) (simp_all add: downstreamOf_def)
  then show "insert n (set (getDownstreamNodes graph n)) \<subseteq> downstreamOf graph n"
    by (simp add: getDownstreamNodes_def downstreamOf_def)
  show "downstreamOf graph n \<subseteq> insert n (set (getDownstreamNodes graph n))"
    unfolding getDownstreamNodes_def by (rule getDownstreamLoop_complete) simp_all
qed

lemma fold_delete:
  "fold (\<lambda>d c'. c'(d := None)) ds c = (\<lambda>x. if x \<in> set ds then None else c x)"
  by (induction ds arbitrary: c) (auto simp: fun_eq_iff)

text \<open>
  C4. For every graph, cache and node id, \<open>invalidateNode\<close> leaves a cache in which the
  entry of the node and of every node reachable from it along edges, source to target,
  is absent, and the entry of every other node is what it was.
\<close>

theorem invalidateNode_frame:
  "invalidateNode graph nId c =
     (\<lambda>x. if (nId, x) \<in> (edgeRel graph)\<^sup>* then None else c x)"
proof -
  have "invalidateNode graph nId c =
          (\<lambda>x. if x \<in> insert nId (set (getDownstreamNodes graph nId)) then None else c x)"
    by (auto simp: invalidateNode_def fold_delete fun_eq_iff)
  then show ?thesis
    unfolding getDownstreamNodes_eq by (simp add: downstreamOf_def)
qed

text \<open>
  On the edges \<open>A \<rightarrow> B \<rightarrow> C\<close>, invalidating \<open>A\<close> finds \<open>B\<close> and \<open>C\<close> downstream and
  leaves of the four cache entries only the one of \<open>D\<close>.
\<close>

lemma invalidate_chain_example:
  "getDownstreamNodes \<lparr>nodes = [], edges = chainEdges\<rparr> ''A'' = [''B'', ''C'']
   \<and> map (invalidateNode \<lparr>nodes = [], edges = chainEdges\<rparr> ''A'' fullCache)
         [''A'', ''B'', ''C'', ''D''] = [None, None, None, Some (Some twoNotes)]"
proof -
  have d: "getDownstreamNodes \<lparr>nodes = [], edges = chainEdges\<rparr> ''A'' = [''B'', ''C'']"
    by (simp add: getDownstreamNodes_def chainEdges_def setAdd_def)
  show ?thesis unfolding invalidateNode_def d by (simp add: fullCache_def)
qed

section \<open>Properties of the evaluator\<close>

subsection \<open>Running the evaluator on given upstream values\<close>

lemma insertWith_set [simp]: "set (insertWith cmp x xs) = insert x (set xs)"
  by (induction xs) auto

lemma sortWith_set [simp]: "set (sortWith cmp xs) = set xs"
  by (induction xs) (auto simp: sortWith_def)

lemma evaluateSources_run:
  assumes "\<And>s c. s \<in> source ` set es \<Longrightarrow> P c \<Longrightarrow> \<exists>c'. ev s c = Some (v s, c') \<and> P c'"
      and "P c"
  shows "\<exists>c'. evaluateSources ev es c = Some (map (\<lambda>e. v (source e)) es, c') \<and> P c'"
  using assms
proof (induction es arbitrary: c)
  case Nil
  then show ?case by simp
next
  case (Cons e es)
  from Cons.prems(1)[of "source e" c] Cons.prems(2)
  obtain c1 where c1: "ev (source e) c = Some (v (source e), c1)" "P c1" by auto
  have "\<exists>c'. evaluateSources ev es c1 = Some (map (\<lambda>e. v (source e)) es, c') \<and> P c'"
    by (rule Cons.IH) (use Cons.prems(1) c1(2) in auto)
  then show ?case using c1 by auto
qed

lemma getModifierInputsLoop_run:
  assumes "\<And>s c. s \<in> source ` set inc \<Longrightarrow> P c \<Longrightarrow> \<exists>c'. ev s c = Some (v s, c') \<and> P c'"
      and "P c"
  shows "\<exists>c'. getModifierInputsLoop ev parseInt inc defs result c
                = Some (assembleInputs v parseInt inc defs result, c') \<and> P c'"
  using assms(2)
proof (induction defs arbitrary: result c)
  case Nil
  then show ?case by simp
next
  case (Cons d defs)
  show ?case
  proof (cases d)
    case (Keyword key lbl req)
    show ?thesis
    proof (cases "find (\<lambda>e. targetHandle e = Some key) inc")
      case None
      then show ?thesis using Cons.IH[OF Cons.prems] Keyword by simp
    next
      case (Some edge)
      then have "edge \<in> set inc" by (auto simp: find_Some_iff)
      with assms(1)[of "source edge" c] Cons.prems
      obtain c1 where c1: "ev (source edge) c = Some (v (source edge), c1)" "P c1" by auto
      show ?thesis
      proof (cases "v (source edge)")
        case None
        then show ?thesis using Cons.IH[OF c1(2)] Keyword Some c1(1) by simp
      next
        case (Some pat)
        then show ?thesis using Cons.IH[OF c1(2)] Keyword \<open>find _ inc = Some edge\<close> c1(1) by simp
      qed
    qed
  next
    case (Positional minCount lbl)
    let ?pe = "sortWith (compareEdges parseInt) (filter isPositionalEdge inc)"
    have "\<exists>c'. evaluateSources ev ?pe c = Some (map (\<lambda>e. v (source e)) ?pe, c') \<and> P c'"
      by (rule evaluateSources_run) (use assms(1) Cons.prems in auto)
    then obtain c1 where c1: "evaluateSources ev ?pe c = Some (map (\<lambda>e. v (source e)) ?pe, c1)" "P c1"
      by auto
    show ?thesis using Cons.IH[OF c1(2)] Positional c1(1) by (simp add: Let_def)
  qed
qed


lemma coherent_refl: "coherent v c c"
  by (simp add: coherent_def)

lemma evaluateNode_run:
  assumes "\<And>s c. s \<in> source ` set (filter (\<lambda>e. target e = nodeId node) (edges graph)) \<Longrightarrow> P c
             \<Longrightarrow> \<exists>c'. ev s c = Some (v s, c') \<and> P c'"
      and "P c"
  shows "\<exists>c'. evaluateNode ev parseInt reg graph node c
                = Some (nodeValue v parseInt reg graph node, c') \<and> P c'"
proof (cases "nodeData node")
  case (PatternSource pat nm)
  then show ?thesis using assms(2) by (simp add: evaluateNode_def nodeValue_def)
next
  case (Modifier mt params cnt nm)
  show ?thesis
  proof (cases "getModifier reg mt")
    case None
    then show ?thesis using assms(2) Modifier
      by (simp add: evaluateNode_def evaluateModifier_def nodeValue_def)
  next
    case (Some m)
    let ?inc = "filter (\<lambda>e. target e = nodeId node) (edges graph)"
    have "\<exists>c'. getModifierInputsLoop ev parseInt ?inc (inputs m) \<lparr>keyword = None, positional = None\<rparr> c
                = Some (assembleInputs v parseInt ?inc (inputs m) \<lparr>keyword = None, positional = None\<rparr>, c')
              \<and> P c'"
      by (rule getModifierInputsLoop_run) (use assms in auto)
    then obtain c1 where
      "getModifierInputs ev parseInt graph node (inputs m) c
         = Some (inputsOf v parseInt graph (nodeId node) (inputs m), c1)" "P c1"
      by (auto simp: getModifierInputs_def inputsOf_def)
    then show ?thesis using Modifier Some
      by (simp add: evaluateNode_def evaluateModifier_def nodeValue_def)
  qed
qed

lemma evaluate_coherent:
  assumes top: "topological graph rank"
      and V: "\<And>y. V y = evaluated (Suc (rank y)) parseInt reg graph cb y"
  shows "rank x < k \<Longrightarrow> coherent V cb c \<Longrightarrow>
         \<exists>c'. evaluate k parseInt reg graph x c = Some (V x, c') \<and> coherent V cb c'"
proof (induction "rank x" arbitrary: x k c rule: less_induct)
  case less
  from less.prems(1) obtain k' where k: "k = Suc k'" "rank x \<le> k'"
    by (cases k) auto
  show ?case
  proof (cases "find (\<lambda>n. nodeId n = x) (nodes graph)")
    case None
    then have "V x = None" by (simp add: V evaluated_def)
    then show ?thesis using None k less.prems(2) by simp
  next
    case (Some node)
    then have nid: "nodeId node = x" by (auto simp: find_Some_iff)
    show ?thesis
    proof (cases "c x")
      case (Some cached)
      have "V x = cached"
      proof (cases "c x = cb x")
        case True
        then have "cb x = Some cached" using Some by simp
        then show ?thesis using \<open>find _ _ = Some node\<close> by (simp add: V evaluated_def)
      next
        case False
        from less.prems(2) have "c x = cb x \<or> (cb x = None \<and> c x = Some (V x))"
          unfolding coherent_def by blast
        with False Some show ?thesis by simp

      qed
      then show ?thesis using Some \<open>find _ _ = Some node\<close> k less.prems(2) by simp
    next
      case None
      from less.prems(2) have "c x = cb x \<or> (cb x = None \<and> c x = Some (V x))"
        unfolding coherent_def by blast
      with None have cbx: "cb x = None" by auto
      have run: "\<exists>c'. evaluateNode (evaluate k1 parseInt reg graph) parseInt reg graph node c1
                       = Some (nodeValue V parseInt reg graph node, c') \<and> coherent V cb c'"
        if "rank x \<le> k1" "coherent V cb c1" for k1 c1
      proof (rule evaluateNode_run[where P = "coherent V cb"])
        fix s c2
        assume s: "s \<in> source ` set (filter (\<lambda>e. target e = nodeId node) (edges graph))"
          and c2: "coherent V cb c2"
        then have "rank s < rank x" using top nid by (auto simp: topological_def)
        then show "\<exists>c'. evaluate k1 parseInt reg graph s c2 = Some (V s, c') \<and> coherent V cb c'"
          using less.hyps[of s k1 c2] that(1) c2 by simp
      qed (rule that(2))
      from run[of "rank x" cb] coherent_refl
      have "V x = nodeValue V parseInt reg graph node"
        using \<open>find _ _ = Some node\<close> cbx by (auto simp: V[of x] evaluated_def)
      moreover from run[OF k(2) less.prems(2)] obtain c1 where
        c1: "evaluateNode (evaluate k' parseInt reg graph) parseInt reg graph node c
               = Some (nodeValue V parseInt reg graph node, c1)" "coherent V cb c1"
        by auto
      moreover have "coherent V cb (c1(x \<mapsto> V x))"
        using c1(2) cbx by (auto simp: coherent_def)
      ultimately show ?thesis using None \<open>find _ _ = Some node\<close> k by simp
    qed
  qed
qed


lemma ancestors_in_sources:
  "{y. (y, x) \<in> (edgeRel graph)\<^sup>+} \<subseteq> source ` set (edges graph)"
proof
  fix y assume "y \<in> {y. (y, x) \<in> (edgeRel graph)\<^sup>+}"
  then have "y \<in> Domain (edgeRel graph)" by (auto dest: tranclD)
  then show "y \<in> source ` set (edges graph)" by (auto simp: edgeRel_def)
qed

lemma ancestorCount_le: "ancestorCount graph x \<le> length (edges graph)"
proof -
  have "ancestorCount graph x \<le> card (source ` set (edges graph))"
    unfolding ancestorCount_def by (rule card_mono[OF _ ancestors_in_sources]) simp
  also have "\<dots> \<le> card (set (edges graph))" by (rule card_image_le) simp
  also have "\<dots> \<le> length (edges graph)" by (rule card_length)
  finally show ?thesis .
qed

lemma acyclic_topological:
  assumes "acyclic (edgeRel graph)"
  shows "topological graph (ancestorCount graph)"
  unfolding topological_def
proof
  fix e assume e: "e \<in> set (edges graph)"
  let ?R = "edgeRel graph"
  have st: "(source e, target e) \<in> ?R" using e by (auto simp: edgeRel_def)
  have fin: "finite {y. (y, target e) \<in> ?R\<^sup>+}"
    by (rule finite_subset[OF ancestors_in_sources]) simp
  have "{y. (y, source e) \<in> ?R\<^sup>+} \<subseteq> {y. (y, target e) \<in> ?R\<^sup>+}"
    using st by (auto intro: trancl_into_trancl)
  moreover have "source e \<in> {y. (y, target e) \<in> ?R\<^sup>+}" using st by auto
  moreover have "source e \<notin> {y. (y, source e) \<in> ?R\<^sup>+}"
    using assms by (auto simp: acyclic_def)
  ultimately have "{y. (y, source e) \<in> ?R\<^sup>+} \<subset> {y. (y, target e) \<in> ?R\<^sup>+}" by blast
  then show "ancestorCount graph (source e) < ancestorCount graph (target e)"
    unfolding ancestorCount_def by (rule psubset_card_mono[OF fin])
qed

lemma topological_acyclic:
  assumes "topological graph rank"
  shows "acyclic (edgeRel graph)"
proof -
  have "edgeRel graph \<subseteq> measure rank"
    using assms by (auto simp: edgeRel_def topological_def)
  then have "wf (edgeRel graph)" by (rule wf_subset[OF wf_measure])
  then show ?thesis by (rule wf_acyclic)
qed

lemma evaluate_acyclic:
  assumes "acyclic (edgeRel graph)" and "length (edges graph) < k"
  shows "\<exists>c'. evaluate k parseInt reg graph x c
                = Some (evaluated (Suc (ancestorCount graph x)) parseInt reg graph c x, c')
              \<and> coherent (\<lambda>y. evaluated (Suc (ancestorCount graph y)) parseInt reg graph c y) c c'"
proof (rule evaluate_coherent[OF acyclic_topological[OF assms(1)], where cb = c
      and V = "\<lambda>y. evaluated (Suc (ancestorCount graph y)) parseInt reg graph c y"])
  show "ancestorCount graph x < k" using ancestorCount_le[of graph x] assms(2) by simp
qed (simp_all add: coherent_refl)

lemma evaluated_depth:
  assumes "acyclic (edgeRel graph)" and "length (edges graph) < k"
  shows "evaluated k parseInt reg graph c
           = (\<lambda>y. evaluated (Suc (ancestorCount graph y)) parseInt reg graph c y)"
proof
  fix x
  from evaluate_acyclic[OF assms, of parseInt reg x c]
  show "evaluated k parseInt reg graph c x
          = evaluated (Suc (ancestorCount graph x)) parseInt reg graph c x"
    by (auto simp: evaluated_def[of k])
qed

lemma evaluatedI:
  "evaluate k parseInt reg graph x c = Some (r, c') \<Longrightarrow> evaluated k parseInt reg graph c x = r"
  by (simp add: evaluated_def)

lemma evaluated_uncached:
  assumes ac: "acyclic (edgeRel graph)" and k: "length (edges graph) < k"
      and node: "find (\<lambda>n. nodeId n = x) (nodes graph) = Some node" and cx: "c x = None"
  shows "evaluated k parseInt reg graph c x
           = nodeValue (evaluated k parseInt reg graph c) parseInt reg graph node"
proof -
  let ?V = "evaluated k parseInt reg graph c"
  from k obtain k' where k': "k = Suc k'" "length (edges graph) \<le> k'" by (cases k) auto
  have nid: "nodeId node = x" using node by (auto simp: find_Some_iff)
  have V: "?V = (\<lambda>y. evaluated (Suc (ancestorCount graph y)) parseInt reg graph c y)"
    by (rule evaluated_depth[OF ac k])
  have "\<exists>c'. evaluateNode (evaluate k' parseInt reg graph) parseInt reg graph node c
               = Some (nodeValue ?V parseInt reg graph node, c') \<and> coherent ?V c c'"
  proof (rule evaluateNode_run[where P = "coherent ?V c"])
    fix s c2
    assume s: "s \<in> source ` set (filter (\<lambda>e. target e = nodeId node) (edges graph))"
      and c2: "coherent ?V c c2"
    have "ancestorCount graph s < ancestorCount graph x"
      using s acyclic_topological[OF ac] nid by (auto simp: topological_def)
    then have "ancestorCount graph s < k'"
      using ancestorCount_le[of graph x] k'(2) by simp
    moreover have "?V y = evaluated (Suc (ancestorCount graph y)) parseInt reg graph c y" for y
      using V by (simp add: fun_eq_iff)
    ultimately show "\<exists>c'. evaluate k' parseInt reg graph s c2 = Some (?V s, c') \<and> coherent ?V c c'"
      using evaluate_coherent[OF acyclic_topological[OF ac], where cb = c and V = ?V
          and parseInt = parseInt and reg = reg and x = s and k = k' and c = c2] c2
      by blast
  qed (rule coherent_refl)
  then obtain c1 where
    "evaluateNode (evaluate k' parseInt reg graph) parseInt reg graph node c
       = Some (nodeValue ?V parseInt reg graph node, c1)" by blast
  then have "evaluate (Suc k') parseInt reg graph x c
       = Some (nodeValue ?V parseInt reg graph node, c1(x \<mapsto> nodeValue ?V parseInt reg graph node))"
    using node cx by simp
  then show ?thesis unfolding k'(1) by (rule evaluatedI)
qed

lemma inputsValid_iff:
  "inputsValid defs ins
     \<longleftrightarrow> \<not> requiredKeywordUnbound defs ins \<and> \<not> positionalBelowMinCount defs ins"
proof (induction defs)
  case Nil
  then show ?case by (simp add: requiredKeywordUnbound_def positionalBelowMinCount_def)
next
  case (Cons d defs)
  show ?case
  proof (cases d)
    case (Keyword key lbl req)
    then show ?thesis using Cons.IH
      by (cases req) (auto simp: requiredKeywordUnbound_def positionalBelowMinCount_def)
  next
    case (Positional minCount lbl)
    then show ?thesis using Cons.IH
      by (auto simp: requiredKeywordUnbound_def positionalBelowMinCount_def Let_def)
  qed
qed

text \<open>
  C3. For a node id present in the graph: if the cache holds an entry for it, be it a
  pattern or \<open>null\<close>, \<open>evaluate\<close> returns that entry and the cache as it was, already with
  a call depth of one, so without evaluating the node or any node upstream; whenever
  \<open>evaluate\<close> returns, the cache it leaves holds the returned result for the node; and
  on an acyclic graph, with a call depth above the number of edges, it does return.
\<close>

theorem evaluate_cache:
  assumes "find (\<lambda>n. nodeId n = nId) (nodes graph) = Some node"
  shows "(\<forall>cached. c nId = Some cached \<longrightarrow>
            evaluate (Suc depth) parseInt reg graph nId c = Some (cached, c))
       \<and> (\<forall>pat c'. evaluate depth parseInt reg graph nId c = Some (pat, c') \<longrightarrow>
            c' nId = Some pat)
       \<and> (acyclic (edgeRel graph) \<and> length (edges graph) < depth \<longrightarrow>
            (\<exists>pat c'. evaluate depth parseInt reg graph nId c = Some (pat, c')
                      \<and> c' nId = Some pat))"
proof -
  have hit: "evaluate (Suc depth) parseInt reg graph nId c = Some (cached, c)"
    if "c nId = Some cached" for cached
    using that assms by simp
  have store: "c' nId = Some pat"
    if r: "evaluate depth parseInt reg graph nId c = Some (pat, c')" for pat c'
  proof -
    from r obtain k where k: "depth = Suc k" by (cases depth) auto
    show ?thesis using r assms unfolding k by (auto split: option.splits)
  qed
  have ret: "\<exists>pat c'. evaluate depth parseInt reg graph nId c = Some (pat, c') \<and> c' nId = Some pat"
    if "acyclic (edgeRel graph)" "length (edges graph) < depth"
    using evaluate_acyclic[OF that, of parseInt reg nId c] store by blast
  from hit store ret show ?thesis by blast
qed

text \<open>
  C6 (as amended). On an acyclic graph \<open>evaluate\<close> returns, for every node id and
  cache, as soon as the call depth exceeds the number of edges. For a node id without a
  cache entry the result is \<open>null\<close> exactly if the id is unknown, or the node is a modifier
  whose type is not registered, or one of its required keyword inputs is unbound, or its
  positional inputs are fewer than \<open>minCount\<close>, or its \<open>execute\<close> throws or itself
  returns \<open>null\<close>; the inputs being those assembled from the values of the upstream nodes.
\<close>

theorem evaluate_null_cases:
  assumes "acyclic (edgeRel graph)" and "length (edges graph) < depth"
  shows "\<exists>r c'. evaluate depth parseInt reg graph nId c = Some (r, c')
     \<and> (c nId = None \<longrightarrow>
          (r = None \<longleftrightarrow>
            (case find (\<lambda>n. nodeId n = nId) (nodes graph) of
               None \<Rightarrow> True
             | Some node \<Rightarrow>
                 (case nodeData node of
                    PatternSource pat nm \<Rightarrow> False
                  | Modifier modifierType params cnt nm \<Rightarrow>
                      (case getModifier reg modifierType of
                         None \<Rightarrow> True
                       | Some modifier \<Rightarrow>
                           requiredKeywordUnbound (inputs modifier)
                             (inputsOf (evaluated depth parseInt reg graph c) parseInt graph nId
                                (inputs modifier))
                         \<or> positionalBelowMinCount (inputs modifier)
                             (inputsOf (evaluated depth parseInt reg graph c) parseInt graph nId
                                (inputs modifier))
                         \<or> (\<exists>err. execute modifier
                                     (inputsOf (evaluated depth parseInt reg graph c) parseInt graph nId
                                        (inputs modifier)) params = Inl err)
                         \<or> execute modifier
                              (inputsOf (evaluated depth parseInt reg graph c) parseInt graph nId
                                 (inputs modifier)) params = Inr None)))))"
proof -
  from evaluate_acyclic[OF assms, of parseInt reg nId c] obtain r c' where
    r: "evaluate depth parseInt reg graph nId c = Some (r, c')" by blast
  then have ev: "evaluated depth parseInt reg graph c nId = r" by (simp add: evaluated_def)
  have main: "r = None \<longleftrightarrow>
            (case find (\<lambda>n. nodeId n = nId) (nodes graph) of
               None \<Rightarrow> True
             | Some node \<Rightarrow>
                 (case nodeData node of
                    PatternSource pat nm \<Rightarrow> False
                  | Modifier modifierType params cnt nm \<Rightarrow>
                      (case getModifier reg modifierType of
                         None \<Rightarrow> True
                       | Some modifier \<Rightarrow>
                           requiredKeywordUnbound (inputs modifier)
                             (inputsOf (evaluated depth parseInt reg graph c) parseInt graph nId
                                (inputs modifier))
                         \<or> positionalBelowMinCount (inputs modifier)
                             (inputsOf (evaluated depth parseInt reg graph c) parseInt graph nId
                                (inputs modifier))
                         \<or> (\<exists>err. execute modifier
                                     (inputsOf (evaluated depth parseInt reg graph c) parseInt graph nId
                                        (inputs modifier)) params = Inl err)
                         \<or> execute modifier
                              (inputsOf (evaluated depth parseInt reg graph c) parseInt graph nId
                                 (inputs modifier)) params = Inr None)))"
    if cn: "c nId = None"
  proof (cases "find (\<lambda>n. nodeId n = nId) (nodes graph)")
    case None
    from assms(2) obtain k where "depth = Suc k" by (cases depth) auto
    then show ?thesis using r None by simp
  next
    case (Some node)
    have nid: "nodeId node = nId" using Some by (auto simp: find_Some_iff)
    have "r = nodeValue (evaluated depth parseInt reg graph c) parseInt reg graph node"
      using evaluated_uncached[where c = c and x = nId, OF assms Some cn] ev by simp
    then show ?thesis using Some nid
      by (auto simp: nodeValue_def inputsValid_iff applyModifier_def
          split: NodeData.splits option.splits sum.splits)
  qed
  show ?thesis
  proof (rule exI[of _ r], rule exI[of _ c'], intro conjI impI)
    show "evaluate depth parseInt reg graph nId c = Some (r, c')" by (rule r)
  qed (rule main)
qed

subsection \<open>Dropping a positional edge whose source is null\<close>
















subsection \<open>The example graph\<close>

lemma sample_topological: "topological sampleGraph sampleRank"
  by (simp add: topological_def sampleGraph_def edgeAR_def edgeAK_def edgeUK_def edgeRK_def
      sampleRank_def)

lemma sample_acyclic: "acyclic (edgeRel sampleGraph)"
  by (rule topological_acyclic[OF sample_topological])


lemma sample_indices:
  "positionalIndex parseIntDecimal edgeAK = Some 0"
  "positionalIndex parseIntDecimal edgeUK = Some 1"
  "positionalIndex parseIntDecimal edgeRK = Some 2"
  by (simp_all add: positionalIndex_def edgeAK_def edgeUK_def edgeRK_def parseIntDecimal_def
      isDigit_def)

lemma sample_positional:
  "\<not> isPositionalEdge edgeAR" "isPositionalEdge edgeAK" "isPositionalEdge edgeUK"
  "isPositionalEdge edgeRK"
  by (simp_all add: isPositionalEdge_def startsWith_def edgeAR_def edgeAK_def edgeUK_def
      edgeRK_def)


lemma sample_getModifier:
  "getModifier sampleRegistry ''reverse'' = Some reverseModifier"
  "getModifier sampleRegistry ''concat'' = Some concatModifier"
  by (simp_all add: getModifier_def sampleRegistry_def registerModifier_def
      reverseModifier_def concatModifier_def unionModifier_def)

lemma sample_find:
  "find (\<lambda>n. nodeId n = ''A'') (nodes sampleGraph)
     = Some \<lparr>nodeId = ''A'', nodeData = PatternSource twoNotes ''source''\<rparr>"
  "find (\<lambda>n. nodeId n = ''R'') (nodes sampleGraph)
     = Some \<lparr>nodeId = ''R'', nodeData = Modifier ''reverse'' () None ''reversed''\<rparr>"
  "find (\<lambda>n. nodeId n = ''U'') (nodes sampleGraph)
     = Some \<lparr>nodeId = ''U'', nodeData = Modifier ''reverse'' () None ''unconnected''\<rparr>"
  "find (\<lambda>n. nodeId n = ''K'') (nodes sampleGraph)
     = Some \<lparr>nodeId = ''K'', nodeData = Modifier ''concat'' () (Some 3) ''joined''\<rparr>"
  by (simp_all add: sampleGraph_def sampleNodes_def)

lemma sample_U_inputs:
  "inputsOf v parseInt sampleGraph ''U'' (inputs reverseModifier)
     = \<lparr>keyword = None, positional = None\<rparr>"
  by (simp add: inputsOf_def sampleGraph_def reverseModifier_def edgeAR_def edgeAK_def
      edgeUK_def edgeRK_def)

lemma sample_U_null:
  "evaluated 5 parseIntDecimal sampleRegistry sampleGraph Map.empty ''U'' = None"
proof -
  have "evaluated 5 parseIntDecimal sampleRegistry sampleGraph Map.empty ''U''
          = nodeValue (evaluated 5 parseIntDecimal sampleRegistry sampleGraph Map.empty)
              parseIntDecimal sampleRegistry sampleGraph
              \<lparr>nodeId = ''U'', nodeData = Modifier ''reverse'' () None ''unconnected''\<rparr>"
    by (rule evaluated_uncached[OF sample_acyclic _ sample_find(3)])
       (simp_all add: sampleGraph_def)
  also have "\<dots> = None"
    by (simp add: nodeValue_def sample_getModifier sample_U_inputs)
       (simp add: reverseModifier_def)
  finally show ?thesis .
qed

lemma loop_never_returns:
  "evaluate depth parseIntDecimal sampleRegistry loopGraph ''L'' Map.empty = None"
proof (induction depth)
  case 0
  then show ?case by simp
next
  case (Suc depth)
  then show ?case
    by (simp add: loopGraph_def evaluateNode_def evaluateModifier_def sample_getModifier
        getModifierInputs_def reverseModifier_def)
qed

lemma sample_A_value:
  "evaluate (Suc 0) parseIntDecimal sampleRegistry sampleGraph ''A'' Map.empty
     = Some (Some twoNotes, [''A'' \<mapsto> Some twoNotes])"
  by (simp add: sample_find evaluateNode_def)

lemma sample_values:
  "evaluated 5 parseIntDecimal sampleRegistry sampleGraph Map.empty ''A'' = Some twoNotes"
  "evaluated 5 parseIntDecimal sampleRegistry sampleGraph Map.empty ''R'' = Some (reverse twoNotes)"
  "evaluated 5 parseIntDecimal sampleRegistry sampleGraph Map.empty ''K''
     = Some (concat_patterns [twoNotes, reverse twoNotes])"
proof -
  let ?V = "evaluated 5 parseIntDecimal sampleRegistry sampleGraph Map.empty"
  have len: "length (edges sampleGraph) < 5" by (simp add: sampleGraph_def)
  have "?V ''A'' = nodeValue ?V parseIntDecimal sampleRegistry sampleGraph
                     \<lparr>nodeId = ''A'', nodeData = PatternSource twoNotes ''source''\<rparr>"
    by (rule evaluated_uncached[OF sample_acyclic len sample_find(1)]) simp
  then show A: "?V ''A'' = Some twoNotes" by (simp add: nodeValue_def)
  have "?V ''R'' = nodeValue ?V parseIntDecimal sampleRegistry sampleGraph
                     \<lparr>nodeId = ''R'', nodeData = Modifier ''reverse'' () None ''reversed''\<rparr>"
    by (rule evaluated_uncached[OF sample_acyclic len sample_find(2)]) simp
  also have "\<dots> = Some (reverse twoNotes)"
  proof -
    have incR: "filter (\<lambda>e. target e = ''R'') (edges sampleGraph) = [edgeAR]"
      by (simp add: sampleGraph_def edgeAR_def edgeAK_def edgeUK_def edgeRK_def)
    have hAR: "targetHandle edgeAR = Some ''pattern''" "source edgeAR = ''A''"
      by (simp_all add: edgeAR_def)
    have insR: "inputsOf ?V parseIntDecimal sampleGraph ''R'' (inputs reverseModifier)
                 = \<lparr>keyword = Some [''pattern'' \<mapsto> twoNotes], positional = None\<rparr>"
      unfolding inputsOf_def incR by (simp add: reverseModifier_def hAR A)
    show ?thesis
      by (simp add: nodeValue_def sample_getModifier insR)
         (simp add: reverseModifier_def applyModifier_def sample_getModifier)
  qed
  finally show R: "?V ''R'' = Some (reverse twoNotes)" .
  have srt: "sortWith (compareEdges parseIntDecimal) [edgeAK, edgeUK, edgeRK]
               = [edgeAK, edgeUK, edgeRK]"
    by (simp add: sortWith_def compareEdges_def sample_indices)
  have inc: "filter (\<lambda>e. target e = ''K'') (edges sampleGraph) = [edgeAK, edgeUK, edgeRK]"
    by (simp add: sampleGraph_def edgeAR_def edgeAK_def edgeUK_def edgeRK_def)
  have src: "source edgeAK = ''A''" "source edgeUK = ''U''" "source edgeRK = ''R''"
    by (simp_all add: edgeAK_def edgeUK_def edgeRK_def)
  have ins: "inputsOf ?V parseIntDecimal sampleGraph ''K'' (inputs concatModifier)
               = \<lparr>keyword = None, positional = Some [twoNotes, reverse twoNotes]\<rparr>"
    unfolding inputsOf_def inc
    by (simp add: concatModifier_def sample_positional srt src A R sample_U_null
        List.map_filter_def)
  have "?V ''K'' = nodeValue ?V parseIntDecimal sampleRegistry sampleGraph
                     \<lparr>nodeId = ''K'', nodeData = Modifier ''concat'' () (Some 3) ''joined''\<rparr>"
    by (rule evaluated_uncached[OF sample_acyclic len sample_find(4)]) simp
  also have "\<dots> = Some (concat_patterns [twoNotes, reverse twoNotes])"
    by (simp add: nodeValue_def sample_getModifier ins)
       (simp add: concatModifier_def applyModifier_def sample_getModifier)
  finally show "?V ''K'' = Some (concat_patterns [twoNotes, reverse twoNotes])" .
qed

text \<open>
  C3 on the example graph: a cached \<open>null\<close> for \<open>U\<close> is returned as it is, the
  pattern of \<open>A\<close> is in the cache after the call, and so is the result for \<open>K\<close>.
\<close>

theorem evaluate_cache_witness:
  "find (\<lambda>n. nodeId n = ''U'') (nodes sampleGraph)
     = Some \<lparr>nodeId = ''U'', nodeData = Modifier ''reverse'' () None ''unconnected''\<rparr>
   \<and> evaluate (Suc 0) parseIntDecimal sampleRegistry sampleGraph ''U'' [''U'' \<mapsto> None]
       = Some (None, [''U'' \<mapsto> None])
   \<and> find (\<lambda>n. nodeId n = ''A'') (nodes sampleGraph)
     = Some \<lparr>nodeId = ''A'', nodeData = PatternSource twoNotes ''source''\<rparr>
   \<and> (\<exists>c'. evaluate (Suc 0) parseIntDecimal sampleRegistry sampleGraph ''A'' Map.empty
              = Some (Some twoNotes, c') \<and> c' ''A'' = Some (Some twoNotes))
   \<and> acyclic (edgeRel sampleGraph) \<and> length (edges sampleGraph) < 5
   \<and> (\<exists>c'. evaluate 5 parseIntDecimal sampleRegistry sampleGraph ''K'' Map.empty
              = Some (Some (concat_patterns [twoNotes, reverse twoNotes]), c')
            \<and> c' ''K'' = Some (Some (concat_patterns [twoNotes, reverse twoNotes])))"
proof -
  have 1: "evaluate (Suc 0) parseIntDecimal sampleRegistry sampleGraph ''U'' [''U'' \<mapsto> None]
       = Some (None, [''U'' \<mapsto> None])"
    using evaluate_cache[OF sample_find(3), where c = "[''U'' \<mapsto> None]" and depth = 0
        and parseInt = parseIntDecimal and reg = sampleRegistry]
    by simp
  have 2: "\<exists>c'. evaluate (Suc 0) parseIntDecimal sampleRegistry sampleGraph ''A'' Map.empty
              = Some (Some twoNotes, c') \<and> c' ''A'' = Some (Some twoNotes)"
    using evaluate_cache[OF sample_find(1), where c = Map.empty and depth = "Suc 0"
        and parseInt = parseIntDecimal and reg = sampleRegistry] sample_A_value
    by blast
  have len: "length (edges sampleGraph) < 5" by (simp add: sampleGraph_def)
  from evaluate_cache[OF sample_find(4), where c = Map.empty and depth = 5
        and parseInt = parseIntDecimal and reg = sampleRegistry] sample_acyclic len
  obtain pat c' where
    k: "evaluate 5 parseIntDecimal sampleRegistry sampleGraph ''K'' Map.empty = Some (pat, c')"
       "c' ''K'' = Some pat"
    by blast
  have "pat = Some (concat_patterns [twoNotes, reverse twoNotes])"
    using evaluatedI[OF k(1)] sample_values(3) by simp
  then have 3: "\<exists>c'. evaluate 5 parseIntDecimal sampleRegistry sampleGraph ''K'' Map.empty
              = Some (Some (concat_patterns [twoNotes, reverse twoNotes]), c')
            \<and> c' ''K'' = Some (Some (concat_patterns [twoNotes, reverse twoNotes]))"
    using k by blast
  from 1 2 3 sample_find(1,3) sample_acyclic len show ?thesis by blast
qed

text \<open>
  C6 on the example graph: \<open>U\<close> has its required keyword input unbound and evaluates to
  \<open>null\<close>; the source \<open>A\<close> does not.
\<close>

theorem evaluate_null_cases_witness:
  "acyclic (edgeRel sampleGraph) \<and> length (edges sampleGraph) < 5
   \<and> (\<exists>c'. evaluate 5 parseIntDecimal sampleRegistry sampleGraph ''U'' Map.empty = Some (None, c'))
   \<and> (\<exists>pat c'. evaluate 5 parseIntDecimal sampleRegistry sampleGraph ''A'' Map.empty
                  = Some (Some pat, c'))"
proof -
  have len: "length (edges sampleGraph) < 5" by (simp add: sampleGraph_def)
  have rk: "requiredKeywordUnbound (inputs reverseModifier) \<lparr>keyword = None, positional = None\<rparr>"
    by (simp add: requiredKeywordUnbound_def reverseModifier_def)
  have U: "\<exists>c'. evaluate 5 parseIntDecimal sampleRegistry sampleGraph ''U'' Map.empty = Some (None, c')"
    using evaluate_null_cases[OF sample_acyclic len, of parseIntDecimal sampleRegistry "''U''" Map.empty]
    by (simp add: sample_find sample_getModifier sample_U_inputs rk)
  have A: "\<exists>pat c'. evaluate 5 parseIntDecimal sampleRegistry sampleGraph ''A'' Map.empty
                  = Some (Some pat, c')"
    using evaluate_null_cases[OF sample_acyclic len, of parseIntDecimal sampleRegistry "''A''" Map.empty]
    by (auto simp: sample_find)
  from sample_acyclic len U A show ?thesis by blast
qed

text \<open>
  C6 as stated fails on a graph with a cycle: for the node \<open>L\<close> that feeds itself no call
  depth is enough, \<open>evaluate\<close> does not return.
\<close>

theorem evaluate_cycle_counterexample:
  "\<forall>depth. evaluate depth parseIntDecimal sampleRegistry loopGraph ''L'' Map.empty = None"
  using loop_never_returns by blast


section \<open>Properties of detectCycles\<close>

lemma indexOf_nonneg: "x \<in> set xs \<Longrightarrow> 0 \<le> indexOf xs x"
  by (induction xs) (auto simp: Let_def)

lemma slice_indexOf:
  "x \<in> set xs \<Longrightarrow> \<exists>pre suf. xs = pre @ x # suf \<and> slice xs (indexOf xs x) = x # suf"
proof (induction xs)
  case Nil
  then show ?case by simp
next
  case (Cons y ys)
  show ?case
  proof (cases "y = x")
    case True
    have "y # ys = [] @ x # ys \<and> slice (y # ys) (indexOf (y # ys) x) = x # ys"
      using True by (simp add: slice_def)
    then show ?thesis by blast
  next
    case False
    then have mem: "x \<in> set ys" using Cons.prems by simp
    from Cons.IH[OF mem] obtain pre suf where
      ps: "ys = pre @ x # suf" "slice ys (indexOf ys x) = x # suf" by blast
    have nn: "0 \<le> indexOf ys x" by (rule indexOf_nonneg[OF mem])
    then have "indexOf (y # ys) x = indexOf ys x + 1" using False by (simp add: Let_def)
    then have "slice (y # ys) (indexOf (y # ys) x) = drop (Suc (nat (indexOf ys x))) (y # ys)"
      using nn by (simp add: slice_def nat_add_distrib)
    also have "\<dots> = slice ys (indexOf ys x)" using nn by (simp add: slice_def)
    finally have "y # ys = (y # pre) @ x # suf \<and> slice (y # ys) (indexOf (y # ys) x) = x # suf"
      using ps by simp
    then show ?thesis by blast
  qed
qed

lemma successively_trancl:
  "successively (\<lambda>a b. (a, b) \<in> R) (x # y # zs) \<Longrightarrow> (x, last (y # zs)) \<in> R\<^sup>+"
proof (induction zs arbitrary: x y)
  case Nil
  then show ?case by auto
next
  case (Cons z zs)
  then have "(x, y) \<in> R" "successively (\<lambda>a b. (a, b) \<in> R) (y # z # zs)" by auto
  then show ?case using Cons.IH[of y z] by (auto intro: trancl_into_trancl2)
qed

lemma cycleWitness_trancl:
  assumes "cycleWitness graph w"
  shows "(hd w, hd w) \<in> (edgeRel graph)\<^sup>+"
proof -
  from assms have l: "2 \<le> length w" and h: "hd w = last w"
    and sc: "successively (\<lambda>a b. (a, b) \<in> edgeRel graph) w"
    by (simp_all add: cycleWitness_def)
  obtain x y zs where w: "w = x # y # zs" using l by (cases w; cases "tl w") auto
  have e: "last (y # zs) = x" using h unfolding w by simp
  have "(x, last (y # zs)) \<in> (edgeRel graph)\<^sup>+"
    by (rule successively_trancl) (use sc w in simp)
  then have "(x, x) \<in> (edgeRel graph)\<^sup>+" unfolding e .
  then show ?thesis unfolding w by simp
qed

lemma cycle_from_path:
  assumes "distinct path" "successively (\<lambda>a b. (a, b) \<in> edgeRel graph) path"
      and "t \<in> set path" "(last path, t) \<in> edgeRel graph"
  shows "cycleWitness graph (slice path (indexOf path t) @ [t])"
proof -
  let ?P = "\<lambda>a b. (a, b) \<in> edgeRel graph"
  from slice_indexOf[OF assms(3)] obtain pre suf where
    ps: "path = pre @ t # suf" "slice path (indexOf path t) = t # suf" by blast
  have d: "distinct (t # suf)" using assms(1) unfolding ps(1) by simp
  have s: "successively ?P (t # suf)"
    using assms(2) unfolding ps(1) successively_append_iff by blast
  have l: "?P (last (t # suf)) t" using assms(4) unfolding ps(1) by simp
  have "successively ?P ((t # suf) @ [t])
          \<longleftrightarrow> successively ?P (t # suf) \<and> successively ?P [t]
              \<and> (t # suf = [] \<or> [t] = [] \<or> ?P (last (t # suf)) (hd [t]))"
    by (rule successively_append_iff)
  then have sc: "successively ?P ((t # suf) @ [t])" using s l by simp
  have "2 \<le> length ((t # suf) @ [t])" by simp
  moreover have "hd ((t # suf) @ [t]) = last ((t # suf) @ [t])" by simp
  moreover have "distinct (butlast ((t # suf) @ [t]))" using d by (simp only: butlast_snoc)
  ultimately show ?thesis unfolding ps(2) cycleWitness_def using sc by blast
qed

lemma closed_rtrancl:
  assumes "\<forall>b \<in> B. \<forall>t. (b, t) \<in> R \<longrightarrow> t \<in> B" "x \<in> B" "(x, y) \<in> R\<^sup>*"
  shows "y \<in> B"
  using assms(3,2,1) by (induction rule: rtrancl_induct) auto

lemma enter_node:
  assumes "dfsInv graph s" "v \<notin> set (visitedSet s)"
  shows "dfsInv graph (s\<lparr>visitedSet := setAdd v (visitedSet s),
                           recursionStack := setAdd v (recursionStack s)\<rparr>)"
proof -
  let ?s = "s\<lparr>visitedSet := setAdd v (visitedSet s), recursionStack := setAdd v (recursionStack s)\<rparr>"
  have sub: "set (recursionStack s) \<subseteq> set (visitedSet s)" using assms(1) by (simp add: dfsInv_def)
  have f: "finished ?s = finished s"
    using assms(2) sub by (auto simp: finished_def)
  have "set (recursionStack ?s) \<subseteq> set (visitedSet ?s)" using sub by auto
  moreover have "cycles ?s = []" using assms(1) by (simp add: dfsInv_def)
  ultimately show ?thesis using assms(1) unfolding dfsInv_def f by blast
qed

lemma finish_node:
  assumes inv: "dfsInv graph s" and st: "v \<in> set (recursionStack s)"
      and succ: "\<forall>t. (v, t) \<in> edgeRel graph \<longrightarrow> t \<in> finished s"
  shows "dfsInv graph (s\<lparr>recursionStack := removeAll v (recursionStack s)\<rparr>)"
    and "v \<in> finished (s\<lparr>recursionStack := removeAll v (recursionStack s)\<rparr>)"
proof -
  let ?s = "s\<lparr>recursionStack := removeAll v (recursionStack s)\<rparr>"
  have vis: "v \<in> set (visitedSet s)" using inv st by (auto simp: dfsInv_def)
  have fin: "finished ?s = insert v (finished s)"
    using vis by (auto simp: finished_def)
  have vnot: "v \<notin> finished s" using st by (simp add: finished_def)
  have closed: "\<forall>b \<in> finished s. \<forall>t. (b, t) \<in> edgeRel graph \<longrightarrow> t \<in> finished s"
    using inv by (simp add: dfsInv_def)
  have "(v, v) \<notin> (edgeRel graph)\<^sup>+"
  proof
    assume "(v, v) \<in> (edgeRel graph)\<^sup>+"
    then obtain t where t: "(v, t) \<in> edgeRel graph" "(t, v) \<in> (edgeRel graph)\<^sup>*"
      by (auto dest: tranclD)
    then have "t \<in> finished s" using succ by simp
    then have "v \<in> finished s" by (rule closed_rtrancl[OF closed _ t(2)])
    then show False using vnot by simp
  qed
  then show "dfsInv graph ?s"
    using inv succ unfolding dfsInv_def fin by auto
  show "v \<in> finished ?s" unfolding fin by simp
qed

lemma finite_unvisited [simp]: "finite (unvisitedTargets graph s)"
  by (simp add: unvisitedTargets_def)

lemma dfsContinues_refl: "dfsInv graph s \<Longrightarrow> dfsContinues graph s s"
  by (simp add: dfsContinues_def)

lemma dfsContinues_trans:
  "dfsContinues graph s s' \<Longrightarrow> dfsContinues graph s' s'' \<Longrightarrow> dfsContinues graph s s''"
  by (auto simp: dfsContinues_def)

lemma dfsContinues_finished:
  "dfsContinues graph s s' \<Longrightarrow> finished s \<subseteq> finished s'"
  by (auto simp: dfsContinues_def finished_def)

lemma dfsContinues_unvisited:
  assumes "dfsContinues graph s s'"
  shows "card (unvisitedTargets graph s') \<le> card (unvisitedTargets graph s)"
  by (rule card_mono) (use assms in \<open>auto simp: dfsContinues_def unvisitedTargets_def\<close>)

lemma dfsContinues_pathInv:
  "dfsContinues graph s s' \<Longrightarrow> pathInv graph path s \<Longrightarrow> pathInv graph path s'"
  by (auto simp: dfsContinues_def pathInv_def)

lemma edge_in_rel: "e \<in> set (edges graph) \<Longrightarrow> (source e, target e) \<in> edgeRel graph"
  by (auto simp: edgeRel_def)

lemma reachable_step:
  "x \<in> reachable graph \<Longrightarrow> (x, y) \<in> edgeRel graph \<Longrightarrow> y \<in> reachable graph"
  by (auto simp: reachable_def intro: rtrancl_into_rtrancl)

lemma pathInv_push:
  assumes "pathInv graph path s" "dfsInv graph s" "v \<notin> set (visitedSet s)"
      and "v \<in> reachable graph" "path \<noteq> [] \<longrightarrow> (last path, v) \<in> edgeRel graph"
  shows "pathInv graph (path @ [v])
           (s\<lparr>visitedSet := setAdd v (visitedSet s), recursionStack := setAdd v (recursionStack s)\<rparr>)"
proof -
  have "v \<notin> set path" using assms(1,2,3) by (auto simp: pathInv_def dfsInv_def)
  moreover have "successively (\<lambda>a b. (a, b) \<in> edgeRel graph) (path @ [v])"
    using assms(1,5) by (auto simp: pathInv_def successively_append_iff)
  ultimately show ?thesis using assms(1,4) by (auto simp: pathInv_def)
qed

lemma unvisited_enter:
  assumes "card (insert v (unvisitedTargets graph s)) < Suc depth"
  shows "card (unvisitedTargets graph
           (s\<lparr>visitedSet := setAdd v (visitedSet s), recursionStack := setAdd v (recursionStack s)\<rparr>))
         < depth"
proof -
  let ?s = "s\<lparr>visitedSet := setAdd v (visitedSet s), recursionStack := setAdd v (recursionStack s)\<rparr>"
  have v: "v \<notin> unvisitedTargets graph ?s" by (simp add: unvisitedTargets_def)
  have "insert v (unvisitedTargets graph ?s) \<subseteq> insert v (unvisitedTargets graph s)"
    by (auto simp: unvisitedTargets_def)
  then have "card (insert v (unvisitedTargets graph ?s)) \<le> card (insert v (unvisitedTargets graph s))"
    by (intro card_mono) auto
  moreover have "card (insert v (unvisitedTargets graph ?s)) = Suc (card (unvisitedTargets graph ?s))"
    using v by simp
  ultimately show ?thesis using assms by simp
qed


lemma dfs_run:
  "dfsInv graph s \<Longrightarrow> pathInv graph path s \<Longrightarrow> nId \<notin> set (visitedSet s)
   \<Longrightarrow> nId \<in> reachable graph \<Longrightarrow> (path \<noteq> [] \<longrightarrow> (last path, nId) \<in> edgeRel graph)
   \<Longrightarrow> card (insert nId (unvisitedTargets graph s)) < depth
   \<Longrightarrow> \<exists>found s'. dfs depth graph nId path s = Some (found, s')
         \<and> (if found then dfsFound graph s'
            else dfsContinues graph s s' \<and> nId \<in> finished s')"
and dfsEdges_run:
  "dfsInv graph s \<Longrightarrow> pathInv graph path s \<Longrightarrow> path \<noteq> []
   \<Longrightarrow> (\<forall>e \<in> set es. e \<in> set (edges graph) \<and> source e = last path)
   \<Longrightarrow> card (unvisitedTargets graph s) < depth
   \<Longrightarrow> \<exists>found s'. dfsEdges depth graph path es s = Some (found, s')
         \<and> (if found then dfsFound graph s'
            else dfsContinues graph s s' \<and> (\<forall>e \<in> set es. target e \<in> finished s'))"
proof (induction depth graph nId path s and depth graph path es s rule: dfs_dfsEdges.induct)
  case (1 graph nId path s)
  then show ?case by simp
next
  case (2 depth graph nId path s)
  let ?s1 = "s\<lparr>visitedSet := setAdd nId (visitedSet s),
                recursionStack := setAdd nId (recursionStack s)\<rparr>"
  let ?out = "filter (\<lambda>e. source e = nId) (edges graph)"
  have inv1: "dfsInv graph ?s1" by (rule enter_node[OF "2.prems"(1,3)])
  have path1: "pathInv graph (path @ [nId]) ?s1" by (rule pathInv_push[OF "2.prems"(2,1,3,4,5)])
  have card1: "card (unvisitedTargets graph ?s1) < depth" by (rule unvisited_enter[OF "2.prems"(6)])
  have "\<exists>found s'. dfsEdges depth graph (path @ [nId]) ?out ?s1 = Some (found, s')
         \<and> (if found then dfsFound graph s'
            else dfsContinues graph ?s1 s' \<and> (\<forall>e \<in> set ?out. target e \<in> finished s'))"
    by (rule "2.IH"[OF inv1 path1 _ _ card1]) auto
  then obtain found s2 where
    run: "dfsEdges depth graph (path @ [nId]) ?out ?s1 = Some (found, s2)" and
    post: "if found then dfsFound graph s2
           else dfsContinues graph ?s1 s2 \<and> (\<forall>e \<in> set ?out. target e \<in> finished s2)"
    by blast
  show ?case
  proof (cases found)
    case True
    then show ?thesis using run post by auto
  next
    case False
    let ?s3 = "s2\<lparr>recursionStack := removeAll nId (recursionStack s2)\<rparr>"
    from post False have cont: "dfsContinues graph ?s1 s2"
      and fin: "\<forall>e \<in> set ?out. target e \<in> finished s2" by simp_all
    have inv2: "dfsInv graph s2" using cont by (simp add: dfsContinues_def)
    have stack2: "recursionStack s2 = setAdd nId (recursionStack s)"
      using cont by (simp add: dfsContinues_def)
    have notst: "nId \<notin> set (recursionStack s)"
      using "2.prems"(1,3) by (auto simp: dfsInv_def)
    have st: "nId \<in> set (recursionStack s2)" unfolding stack2 by simp
    have succ: "\<forall>t. (nId, t) \<in> edgeRel graph \<longrightarrow> t \<in> finished s2"
      using fin by (auto simp: edgeRel_def)
    have inv3: "dfsInv graph ?s3" and fin3: "nId \<in> finished ?s3"
      using finish_node[OF inv2 st succ] by simp_all
    have "recursionStack ?s3 = recursionStack s"
      using notst unfolding stack2 by (simp add: setAdd_def)
    moreover have "set (visitedSet s) \<subseteq> set (visitedSet ?s3)"
      using cont by (auto simp: dfsContinues_def)
    ultimately have "dfsContinues graph s ?s3" using inv3 by (simp add: dfsContinues_def)
    then show ?thesis using run False fin3 by auto
  qed
next
  case (3 depth graph path s)
  then show ?case by (auto simp: dfsContinues_refl)
next
  case (4 depth graph path edge rest s)
  let ?t = "target edge"
  have edge: "edge \<in> set (edges graph)" "source edge = last path" using "4.prems"(4) by simp_all
  have rest: "\<forall>e \<in> set rest. e \<in> set (edges graph) \<and> source e = last path"
    using "4.prems"(4) by simp
  have step: "(last path, ?t) \<in> edgeRel graph" using edge_in_rel[OF edge(1)] edge(2) by simp
  have lastr: "last path \<in> reachable graph"
    using "4.prems"(2,3) by (auto simp: pathInv_def)
  show ?case
  proof (cases "?t \<in> set (visitedSet s)")
    case False
    have tU: "insert ?t (unvisitedTargets graph s) = unvisitedTargets graph s"
      using False edge(1) by (auto simp: unvisitedTargets_def)
    have "\<exists>found s'. dfs depth graph ?t path s = Some (found, s')
         \<and> (if found then dfsFound graph s'
            else dfsContinues graph s s' \<and> ?t \<in> finished s')"
    proof (rule "4.IH"(1)[OF False "4.prems"(1,2) False])
      show "?t \<in> reachable graph" by (rule reachable_step[OF lastr step])
      show "path \<noteq> [] \<longrightarrow> (last path, ?t) \<in> edgeRel graph" using step by simp
      show "card (insert ?t (unvisitedTargets graph s)) < depth"
        unfolding tU by (rule "4.prems"(5))
    qed
    then obtain found s1 where
      run: "dfs depth graph ?t path s = Some (found, s1)" and
      post: "if found then dfsFound graph s1 else dfsContinues graph s s1 \<and> ?t \<in> finished s1"
      by blast
    show ?thesis
    proof (cases found)
      case True
      then show ?thesis using run post False by auto
    next
      case nf: False
      from post nf have cont: "dfsContinues graph s s1" and tfin: "?t \<in> finished s1"
        by simp_all
      have inv1: "dfsInv graph s1" using cont by (simp add: dfsContinues_def)
      have card1: "card (unvisitedTargets graph s1) < depth"
        using dfsContinues_unvisited[OF cont] "4.prems"(5) by simp
      have "\<exists>found s'. dfsEdges depth graph path rest s1 = Some (found, s')
         \<and> (if found then dfsFound graph s'
            else dfsContinues graph s1 s' \<and> (\<forall>e \<in> set rest. target e \<in> finished s'))"
        by (rule "4.IH"(2)[OF False run refl nf inv1 dfsContinues_pathInv[OF cont "4.prems"(2)]
              "4.prems"(3) rest card1])
      then obtain found2 s2 where
        run2: "dfsEdges depth graph path rest s1 = Some (found2, s2)" and
        post2: "if found2 then dfsFound graph s2
                else dfsContinues graph s1 s2 \<and> (\<forall>e \<in> set rest. target e \<in> finished s2)"
        by blast
      show ?thesis
      proof (cases found2)
        case True
        then show ?thesis using run run2 post2 False nf by auto
      next
        case nf2: False
        from post2 nf2 have cont2: "dfsContinues graph s1 s2"
          and rfin: "\<forall>e \<in> set rest. target e \<in> finished s2" by simp_all
        have "?t \<in> finished s2" using dfsContinues_finished[OF cont2] tfin by auto
        then show ?thesis
          using run run2 False nf nf2 rfin dfsContinues_trans[OF cont cont2] by auto
      qed
    qed
  next
    case True
    show ?thesis
    proof (cases "?t \<in> set (recursionStack s)")
      case st: True
      let ?w = "slice path (indexOf path ?t) @ [?t]"
      have tp: "?t \<in> set path" using st "4.prems"(2) by (simp add: pathInv_def)
      have "cycleWitness graph ?w"
        by (rule cycle_from_path[OF _ _ tp step]) (use "4.prems"(2) in \<open>simp_all add: pathInv_def\<close>)
      moreover have "hd ?w = ?t"
        using slice_indexOf[OF tp] by auto
      moreover have "?t \<in> reachable graph"
        using tp "4.prems"(2) by (auto simp: pathInv_def)
      moreover have "cycles s = []" using "4.prems"(1) by (simp add: dfsInv_def)
      ultimately have "dfsFound graph (s\<lparr>cycles := cycles s @ ?w\<rparr>)"
        by (simp add: dfsFound_def)
      then show ?thesis using True st by auto
    next
      case nst: False
      have tfin: "?t \<in> finished s" using True nst by (simp add: finished_def)
      have "\<exists>found s'. dfsEdges depth graph path rest s = Some (found, s')
         \<and> (if found then dfsFound graph s'
            else dfsContinues graph s s' \<and> (\<forall>e \<in> set rest. target e \<in> finished s'))"
        using "4.IH"(3) True nst "4.prems"(1,2,3,5) rest by simp
      then obtain found2 s2 where
        run2: "dfsEdges depth graph path rest s = Some (found2, s2)" and
        post2: "if found2 then dfsFound graph s2
                else dfsContinues graph s s2 \<and> (\<forall>e \<in> set rest. target e \<in> finished s2)"
        by blast
      show ?thesis
      proof (cases found2)
        case True
        then show ?thesis using run2 post2 \<open>?t \<in> set (visitedSet s)\<close> nst by auto
      next
        case nf2: False
        from post2 nf2 have cont2: "dfsContinues graph s s2"
          and rfin: "\<forall>e \<in> set rest. target e \<in> finished s2" by simp_all
        have "?t \<in> finished s2" using dfsContinues_finished[OF cont2] tfin by auto
        then show ?thesis
          using run2 \<open>?t \<in> set (visitedSet s)\<close> nst nf2 rfin cont2 by auto
      qed
    qed
  qed
qed

lemma detectLoop_run:
  assumes len: "length (edges graph) + 1 < depth"
  shows "dfsInv graph s \<Longrightarrow> recursionStack s = [] \<Longrightarrow> set ns \<subseteq> set (nodes graph)
         \<Longrightarrow> \<exists>r. detectLoop depth graph ns s = Some r
               \<and> (case r of
                     None \<Rightarrow> \<exists>s'. dfsContinues graph s s' \<and> nodeId ` set ns \<subseteq> finished s'
                   | Some w \<Rightarrow> cycleWitness graph w \<and> hd w \<in> reachable graph)"
proof (induction ns arbitrary: s)
  case Nil
  then show ?case using dfsContinues_refl[of graph s] by auto
next
  case (Cons n ns)
  have ns: "set ns \<subseteq> set (nodes graph)" and n: "n \<in> set (nodes graph)"
    using Cons.prems(3) by simp_all
  show ?case
  proof (cases "nodeId n \<in> set (visitedSet s)")
    case True
    then have nfin: "nodeId n \<in> finished s" using Cons.prems(2) by (simp add: finished_def)
    from Cons.IH[OF Cons.prems(1,2) ns] obtain r where
      r: "detectLoop depth graph ns s = Some r"
         "case r of None \<Rightarrow> \<exists>s'. dfsContinues graph s s' \<and> nodeId ` set ns \<subseteq> finished s'
          | Some w \<Rightarrow> cycleWitness graph w \<and> hd w \<in> reachable graph"
      by blast
    show ?thesis
    proof (cases r)
      case None
      then obtain s' where s': "dfsContinues graph s s'" "nodeId ` set ns \<subseteq> finished s'"
        using r(2) by auto
      then have "nodeId ` set (n # ns) \<subseteq> finished s'"
        using dfsContinues_finished[OF s'(1)] nfin by auto
      then show ?thesis using r(1) None True s'(1) by auto
    next
      case (Some w)
      then show ?thesis using r True by auto
    qed
  next
    case False
    have "card (insert (nodeId n) (unvisitedTargets graph s))
            \<le> card (insert (nodeId n) (target ` set (edges graph)))"
      by (rule card_mono) (auto simp: unvisitedTargets_def)
    also have "\<dots> \<le> Suc (card (target ` set (edges graph)))" by (simp add: card_insert_if)
    also have "\<dots> \<le> Suc (length (edges graph))"
      using card_image_le[of "set (edges graph)" target] card_length[of "edges graph"] by simp
    finally have fuel: "card (insert (nodeId n) (unvisitedTargets graph s)) < depth"
      using len by simp
    have "\<exists>found s'. dfs depth graph (nodeId n) [] s = Some (found, s')
         \<and> (if found then dfsFound graph s'
            else dfsContinues graph s s' \<and> nodeId n \<in> finished s')"
    proof (rule dfs_run[OF Cons.prems(1) _ False _ _ fuel])
      show "pathInv graph [] s" using Cons.prems(2) by (simp add: pathInv_def)
      show "nodeId n \<in> reachable graph" using n by (auto simp: reachable_def)
    qed simp
    then obtain found s1 where
      run: "dfs depth graph (nodeId n) [] s = Some (found, s1)" and
      post: "if found then dfsFound graph s1
             else dfsContinues graph s s1 \<and> nodeId n \<in> finished s1"
      by blast
    show ?thesis
    proof (cases found)
      case True
      then show ?thesis using run post False by (auto simp: dfsFound_def)
    next
      case nf: False
      from post nf have cont: "dfsContinues graph s s1" and nfin: "nodeId n \<in> finished s1"
        by simp_all
      have inv1: "dfsInv graph s1" and st1: "recursionStack s1 = []"
        using cont Cons.prems(2) by (simp_all add: dfsContinues_def)
      from Cons.IH[OF inv1 st1 ns] obtain r where
        r: "detectLoop depth graph ns s1 = Some r"
           "case r of None \<Rightarrow> \<exists>s'. dfsContinues graph s1 s' \<and> nodeId ` set ns \<subseteq> finished s'
            | Some w \<Rightarrow> cycleWitness graph w \<and> hd w \<in> reachable graph"
        by blast
      show ?thesis
      proof (cases r)
        case None
        then obtain s' where s': "dfsContinues graph s1 s'" "nodeId ` set ns \<subseteq> finished s'"
          using r(2) by auto
        then have "nodeId ` set (n # ns) \<subseteq> finished s'"
          using dfsContinues_finished[OF s'(1)] nfin by auto
        moreover have "dfsContinues graph s s'" by (rule dfsContinues_trans[OF cont s'(1)])
        ultimately show ?thesis using r(1) None False run nf by auto
      next
        case (Some w)
        then show ?thesis using r False run nf by auto
      qed
    qed
  qed
qed

lemma detectCycles_run:
  assumes "length (edges graph) + 1 < depth"
  shows "\<exists>r. detectCycles depth graph = Some r
            \<and> (case r of
                  None \<Rightarrow> \<forall>x \<in> reachable graph. (x, x) \<notin> (edgeRel graph)\<^sup>+
                | Some w \<Rightarrow> cycleWitness graph w \<and> hd w \<in> reachable graph)"
proof -
  let ?s0 = "\<lparr>visitedSet = [], recursionStack = [], cycles = []\<rparr>"
  have inv0: "dfsInv graph ?s0" by (simp add: dfsInv_def finished_def)
  from detectLoop_run[OF assms inv0, of "nodes graph"] obtain r where
    r: "detectLoop depth graph (nodes graph) ?s0 = Some r"
       "case r of None \<Rightarrow> \<exists>s'. dfsContinues graph ?s0 s' \<and> nodeId ` set (nodes graph) \<subseteq> finished s'
        | Some w \<Rightarrow> cycleWitness graph w \<and> hd w \<in> reachable graph"
    by auto
  show ?thesis
  proof (cases r)
    case None
    then obtain s' where s': "dfsInv graph s'" "nodeId ` set (nodes graph) \<subseteq> finished s'"
      using r(2) by (auto simp: dfsContinues_def)
    have closed: "\<forall>b \<in> finished s'. \<forall>t. (b, t) \<in> edgeRel graph \<longrightarrow> t \<in> finished s'"
      and nocyc: "\<forall>b \<in> finished s'. (b, b) \<notin> (edgeRel graph)\<^sup>+"
      using s'(1) by (simp_all add: dfsInv_def)
    have "(x, x) \<notin> (edgeRel graph)\<^sup>+" if "x \<in> reachable graph" for x
    proof -
      from that obtain n where n: "n \<in> set (nodes graph)" "(nodeId n, x) \<in> (edgeRel graph)\<^sup>*"
        by (auto simp: reachable_def)
      have "nodeId n \<in> finished s'" using n(1) s'(2) by auto
      then have "x \<in> finished s'" by (rule closed_rtrancl[OF closed _ n(2)])
      then show ?thesis using nocyc by simp
    qed
    then show ?thesis using r(1) None by (simp add: detectCycles_def)
  next
    case (Some w)
    then show ?thesis using r by (simp add: detectCycles_def)
  qed
qed

text \<open>
  C9 (as amended). For every graph, \<open>detectCycles\<close> returns as soon as the call depth
  exceeds the number of edges by more than one. The search starts at the nodes of the
  graph only, so it returns \<open>null\<close> exactly if no cycle can be reached from a node of the
  graph; and, for a graph whose edges all start at nodes of the graph, exactly if the
  graph is acyclic. A list it returns is a cyclic witness: the slice of the search path
  from the node found on the stack to the current node, followed by that node again;
  each entry has an edge to the next, and no node occurs twice before the closing one.
\<close>

theorem detectCycles_correct:
  assumes "length (edges graph) + 1 < depth"
  shows "\<exists>r. detectCycles depth graph = Some r
     \<and> (r = None \<longleftrightarrow> (\<forall>x \<in> reachable graph. (x, x) \<notin> (edgeRel graph)\<^sup>+))
     \<and> ((\<forall>e \<in> set (edges graph). source e \<in> nodeId ` set (nodes graph))
          \<longrightarrow> (r = None \<longleftrightarrow> acyclic (edgeRel graph)))
     \<and> (\<forall>w. r = Some w \<longrightarrow> cycleWitness graph w)"
proof -
  from detectCycles_run[OF assms] obtain r where
    r: "detectCycles depth graph = Some r"
       "case r of None \<Rightarrow> \<forall>x \<in> reachable graph. (x, x) \<notin> (edgeRel graph)\<^sup>+
        | Some w \<Rightarrow> cycleWitness graph w \<and> hd w \<in> reachable graph"
    by blast
  have a: "r = None \<longleftrightarrow> (\<forall>x \<in> reachable graph. (x, x) \<notin> (edgeRel graph)\<^sup>+)"
  proof (cases r)
    case None
    then show ?thesis using r(2) by simp
  next
    case (Some w)
    then have "hd w \<in> reachable graph" "(hd w, hd w) \<in> (edgeRel graph)\<^sup>+"
      using r(2) cycleWitness_trancl[of graph w] by simp_all
    then show ?thesis using Some by blast
  qed
  have b: "(\<forall>x \<in> reachable graph. (x, x) \<notin> (edgeRel graph)\<^sup>+) \<longleftrightarrow> acyclic (edgeRel graph)"
    if wf: "\<forall>e \<in> set (edges graph). source e \<in> nodeId ` set (nodes graph)"
  proof
    assume l: "\<forall>x \<in> reachable graph. (x, x) \<notin> (edgeRel graph)\<^sup>+"
    show "acyclic (edgeRel graph)"
      unfolding acyclic_def
    proof (intro allI notI)
      fix x assume x: "(x, x) \<in> (edgeRel graph)\<^sup>+"
      then have "x \<in> Domain (edgeRel graph)" by (auto dest: tranclD)
      then have "x \<in> nodeId ` set (nodes graph)" using wf by (auto simp: edgeRel_def)
      then have "x \<in> reachable graph" by (auto simp: reachable_def)
      then show False using l x by blast
    qed
  next
    assume "acyclic (edgeRel graph)"
    then show "\<forall>x \<in> reachable graph. (x, x) \<notin> (edgeRel graph)\<^sup>+"
      by (simp add: acyclic_def)
  qed
  have c: "\<forall>w. r = Some w \<longrightarrow> cycleWitness graph w" using r(2) by auto
  from r(1) a b c show ?thesis by blast
qed

lemma twoCycle_detect:
  "detectCycles (Suc (Suc (Suc (Suc 0)))) twoCycle = Some (Some [''A'', ''B'', ''A''])"
  by (simp add: detectCycles_def twoCycle_def setAdd_def slice_def)


text \<open>
  C9 on the edges \<open>A \<rightarrow> B \<rightarrow> A\<close>, where the witness is \<open>A, B, A\<close>, and on the acyclic
  example graph, where the result is \<open>null\<close>.
\<close>

theorem detectCycles_correct_witness:
  "length (edges twoCycle) + 1 < 4
   \<and> detectCycles 4 twoCycle = Some (Some [''A'', ''B'', ''A''])
   \<and> cycleWitness twoCycle [''A'', ''B'', ''A'']
   \<and> \<not> acyclic (edgeRel twoCycle)
   \<and> length (edges sampleGraph) + 1 < 6
   \<and> source ` set (edges sampleGraph) \<subseteq> nodeId ` set (nodes sampleGraph)
   \<and> acyclic (edgeRel sampleGraph)
   \<and> detectCycles 6 sampleGraph = Some None"
proof -
  have l2: "length (edges twoCycle) + 1 < 4" by (simp add: twoCycle_def)
  have d2: "detectCycles 4 twoCycle = Some (Some [''A'', ''B'', ''A''])"
    using twoCycle_detect by (simp add: eval_nat_numeral)
  have w2: "\<forall>e \<in> set (edges twoCycle). source e \<in> nodeId ` set (nodes twoCycle)"
    by (simp add: twoCycle_def)
  from detectCycles_correct[OF l2] d2 w2
  have c2: "cycleWitness twoCycle [''A'', ''B'', ''A'']" and n2: "\<not> acyclic (edgeRel twoCycle)"
    by auto
  have l6: "length (edges sampleGraph) + 1 < 6" by (simp add: sampleGraph_def)
  have w6: "\<forall>e \<in> set (edges sampleGraph). source e \<in> nodeId ` set (nodes sampleGraph)"
    by (simp add: sampleGraph_def sampleNodes_def edgeAR_def edgeAK_def edgeUK_def edgeRK_def)
  from detectCycles_correct[OF l6] w6 sample_acyclic
  have d6: "detectCycles 6 sampleGraph = Some None" by auto
  have s6: "source ` set (edges sampleGraph) \<subseteq> nodeId ` set (nodes sampleGraph)"
    using w6 by auto
  from l2 d2 c2 n2 l6 s6 sample_acyclic d6 show ?thesis by blast
qed

text \<open>
  C9 as stated fails on a graph with edges between ids that are not its nodes: the only
  node \<open>D\<close> has no edge, the search never comes to \<open>X\<close> and \<open>Y\<close>, and the result is
  \<open>null\<close> although the edges \<open>X \<rightarrow> Y \<rightarrow> X\<close> form a cycle.
\<close>

theorem detectCycles_dangling_counterexample:
  "detectCycles 10 danglingCycle = Some None \<and> \<not> acyclic (edgeRel danglingCycle)"
proof -
  have "detectCycles (Suc depth) danglingCycle = Some None" for depth
    by (simp add: detectCycles_def danglingCycle_def setAdd_def)
  then have d: "detectCycles 10 danglingCycle = Some None"
    by (simp add: eval_nat_numeral)
  have xy: "(''X'', ''Y'') \<in> edgeRel danglingCycle"
    using edge_in_rel[of "\<lparr>edgeId = ''e1'', source = ''X'', target = ''Y'',
        targetHandle = Some ''pattern''\<rparr>" danglingCycle]
    by (simp add: danglingCycle_def)
  have yx: "(''Y'', ''X'') \<in> edgeRel danglingCycle"
    using edge_in_rel[of "\<lparr>edgeId = ''e2'', source = ''Y'', target = ''X'',
        targetHandle = Some ''pattern''\<rparr>" danglingCycle]
    by (simp add: danglingCycle_def)
  have "(''X'', ''X'') \<in> (edgeRel danglingCycle)\<^sup>+"
    by (rule trancl_into_trancl[OF r_into_trancl[OF xy] yx])
  then have "\<not> acyclic (edgeRel danglingCycle)" unfolding acyclic_def by blast
  with d show ?thesis by simp
qed

end
